theory Spec2Isabelle
  imports Complex_Main
begin

section \<open>Weighted randomised Kruskal maze generation and BFS solver\<close>

text \<open>
  A shallow embedding of \<^verbatim>\<open>maze_solver_bfs.py\<close> (and of the functions of
  \<^verbatim>\<open>weighted_kruskal_maze.py\<close> that differ from it). The module-level globals
  become the fields of one state record that every function takes and returns; a
  Python exception is a value of type \<open>error\<close>; a loop whose termination depends on
  the data is a \<^theory_text>\<open>partial_function\<close>, so that not returning is \<open>None\<close>.
  Drawing (\<^verbatim>\<open>fill_cell\<close>, pygame) and frame pacing (\<^verbatim>\<open>progress_time\<close>) have no
  influence on the maze data and are left out.
\<close>

subsection \<open>Computations that may raise or not return\<close>

datatype error = IndexError | ValueError | TypeError

type_synonym 'a comp = "(error + 'a) option"

definition ret :: "'a \<Rightarrow> 'a comp" where
  "ret v = Some (Inr v)"

definition throw :: "error \<Rightarrow> 'a comp" where
  "throw e = Some (Inl e)"

definition and_then :: "'a comp \<Rightarrow> ('a \<Rightarrow> 'b comp) \<Rightarrow> 'b comp" where
  "and_then m f = (case m of None \<Rightarrow> None | Some (Inl e) \<Rightarrow> Some (Inl e) | Some (Inr v) \<Rightarrow> f v)"

text \<open>A \<^verbatim>\<open>for\<close> loop over a fixed range whose body updates the state and may raise.\<close>

fun for_each :: "('a \<Rightarrow> 'b \<Rightarrow> 'b comp) \<Rightarrow> 'a list \<Rightarrow> 'b \<Rightarrow> 'b comp" where
  "for_each body [] st = ret st"
| "for_each body (i # rest) st = and_then (body i st) (for_each body rest)"

subsection \<open>The random source\<close>

text \<open>
  Python's generator is a deterministic function of its seed. It is modelled as the
  infinite sequence of raw draws it will deliver; every call consumes the first one.
  \<^verbatim>\<open>random.randrange(n)\<close> raises ValueError for \<open>n = 0\<close> and otherwise returns a value
  below \<open>n\<close>; \<^verbatim>\<open>random.random()\<close> returns a multiple of \<open>2^-53\<close> in \<open>[0, 1)\<close>. Floats
  are modelled as reals.
\<close>

type_synonym rng = "nat \<Rightarrow> nat"

definition advance :: "rng \<Rightarrow> rng" where
  "advance g = (\<lambda>k. g (Suc k))"

definition rand_int :: "rng \<Rightarrow> nat \<Rightarrow> (nat \<times> rng) comp" where
  "rand_int g n = (if n = 0 then throw ValueError else ret (g 0 mod n, advance g))"

definition random_random :: "rng \<Rightarrow> real \<times> rng" where
  "random_random g = (real (g 0 mod 2 ^ 53) / 2 ^ 53, advance g)"

definition push_rand :: "rng \<Rightarrow> 'a list \<Rightarrow> 'a \<Rightarrow> ('a list \<times> rng) comp" where
  "push_rand g arr item =
     and_then (rand_int g (length arr + 1))
       (\<lambda>(k, g'). ret (take k arr @ item # drop k arr, g'))"

subsection \<open>Walls\<close>

text \<open>
  A wall is the dict \<^verbatim>\<open>{'x', 'y', 'dr', 'typ', 'clr'}\<close>; the coordinate fields are
  called \<open>wall_x\<close> and \<open>wall_y\<close> here, and \<^verbatim>\<open>typ\<close> is \<open>wall_typ\<close>. Walls are created by \<^verbatim>\<open>init\<close> only, with
  coordinates from \<^verbatim>\<open>range\<close>, hence natural numbers. The wall objects live in
  \<^verbatim>\<open>walls_by_index\<close> and are shared by reference with the queues, so a reference to a
  wall is its position in \<^verbatim>\<open>walls_by_index\<close>.
\<close>

record wall =
  wall_x :: nat
  wall_y :: nat
  dr :: bool
  wall_typ :: nat
  clr :: bool

type_synonym wall_ref = nat

definition deref :: "wall option list \<Rightarrow> wall_ref \<Rightarrow> wall option" where
  "deref ws r = (if r < length ws then ws ! r else None)"

definition get_wall :: "nat \<Rightarrow> nat \<Rightarrow> wall option list \<Rightarrow> int \<Rightarrow> int \<Rightarrow> bool \<Rightarrow> wall_ref option comp" where
  "get_wall W H ws x y is_horizontal =
     (if 0 \<le> x \<and> x < int W \<and> 0 \<le> y \<and> y < int H then
        (let index = (nat y * W + nat x) * 2 + (if is_horizontal then 0 else 1) in
         if index < length ws
         then ret (case ws ! index of None \<Rightarrow> None | Some w \<Rightarrow> Some index)
         else throw IndexError)
      else ret None)"

definition HORIZONTAL_OFFSETS :: "(int \<times> int \<times> bool) list" where
  "HORIZONTAL_OFFSETS = [(0, -1, False), (0, -1, True), (1, -1, False),
                         (0, 0, False), (0, 1, True), (1, 0, False)]"

definition VERTICAL_OFFSETS :: "(int \<times> int \<times> bool) list" where
  "VERTICAL_OFFSETS = [(-1, 0, True), (-1, 0, False), (-1, 1, True),
                       (0, 0, True), (1, 0, False), (0, 1, True)]"

text \<open>\<^verbatim>\<open>get_neighbour\<close> of \<^verbatim>\<open>maze_solver_bfs.py\<close>: an index outside the table gives None.\<close>

definition get_neighbour :: "nat \<Rightarrow> nat \<Rightarrow> wall option list \<Rightarrow> wall \<Rightarrow> nat \<Rightarrow> wall_ref option comp" where
  "get_neighbour W H ws w n =
     (let offsets = (if dr w then HORIZONTAL_OFFSETS else VERTICAL_OFFSETS) in
      if n < length offsets then
        (case offsets ! n of (dx, dy, is_horiz) \<Rightarrow>
           get_wall W H ws (int (wall_x w) + dx) (int (wall_y w) + dy) is_horiz)
      else ret None)"

text \<open>\<^verbatim>\<open>getNeighbour\<close> of \<^verbatim>\<open>weighted_kruskal_maze.py\<close>: its own table, and no handler.\<close>

definition offsets_True :: "(int \<times> int \<times> bool) list" where
  "offsets_True = [(-1, 0, False), (-1, 0, True), (0, -1, False),
                   (0, 0, False), (0, 1, True), (1, 0, False)]"

definition offsets_False :: "(int \<times> int \<times> bool) list" where
  "offsets_False = [(-1, 0, True), (-1, 0, False), (-1, 1, True),
                    (0, 0, True), (1, 0, False), (0, 1, True)]"

definition getNeighbour :: "nat \<Rightarrow> nat \<Rightarrow> wall option list \<Rightarrow> wall \<Rightarrow> nat \<Rightarrow> wall_ref option comp" where
  "getNeighbour W H ws w n =
     (let offsets = (if dr w then offsets_True else offsets_False) in
      if n < length offsets then
        (case offsets ! n of (dx, dy, d) \<Rightarrow>
           get_wall W H ws (int (wall_x w) + dx) (int (wall_y w) + dy) d)
      else throw IndexError)"

text \<open>
  \<^verbatim>\<open>get_wall_end_type\<close> reads the \<^verbatim>\<open>clr\<close> flag of three walls, each possibly None.
  The test \<^verbatim>\<open>w and w['clr']\<close> is \<open>removed\<close>.
\<close>

definition removed :: "wall option \<Rightarrow> bool" where
  "removed w = (case w of None \<Rightarrow> False | Some v \<Rightarrow> clr v)"

definition get_wall_end_type :: "wall option \<Rightarrow> wall option \<Rightarrow> wall option \<Rightarrow> nat" where
  "get_wall_end_type w1 w2 w3 =
     (if removed w1 then
        (if removed w3 then 2 else if removed w2 then 2 else 1)
      else if removed w3 then
        (if removed w2 then 2 else 1)
      else 0)"

text \<open>The number of removed walls among three, as the contract counts them.\<close>

definition removed_count :: "wall option \<Rightarrow> wall option \<Rightarrow> wall option \<Rightarrow> nat" where
  "removed_count w1 w2 w3 =
     (if removed w1 then 1 else 0) + (if removed w2 then 1 else 0) + (if removed w3 then 1 else 0)"

definition wall_at :: "wall option list \<Rightarrow> wall_ref option \<Rightarrow> wall option" where
  "wall_at ws r = (case r of None \<Rightarrow> None | Some i \<Rightarrow> deref ws i)"

subsection \<open>Union-find\<close>

text \<open>
  \<^verbatim>\<open>union_find\<close> is a list of Python ints: a negative entry is a root and holds the
  negated size of its tree, any other entry is the index of the parent. Cells are
  indices computed from wall coordinates, hence natural numbers.
\<close>

definition grow :: "int list \<Rightarrow> nat \<Rightarrow> int list" where
  "grow uf cell = uf @ replicate (Suc cell - length uf) (- 1)"

partial_function (option) find_root :: "int list \<Rightarrow> nat \<Rightarrow> nat comp" where
  "find_root uf cell =
     (if length uf \<le> cell then throw IndexError
      else if 0 \<le> uf ! cell then find_root uf (nat (uf ! cell))
      else ret cell)"

partial_function (option) compress :: "int list \<Rightarrow> nat \<Rightarrow> nat \<Rightarrow> int list comp" where
  "compress uf src cell =
     (if length uf \<le> src then throw IndexError
      else if 0 \<le> uf ! src \<and> uf ! src \<noteq> int cell
        then compress (uf[src := int cell]) (nat (uf ! src)) cell
      else ret uf)"

definition ufind :: "int list \<Rightarrow> nat \<Rightarrow> (nat \<times> int list) comp" where
  "ufind uf cell =
     (let uf1 = grow uf cell in
      and_then (find_root uf1 cell) (\<lambda>root.
      and_then (compress uf1 cell root) (\<lambda>uf2.
      ret (root, uf2))))"

text \<open>
  \<^verbatim>\<open>union\<close>. The two roots were just read by \<^verbatim>\<open>ufind\<close>, so they are positions of
  the list (lemma \<open>ufind_root_in_range\<close>).
\<close>

definition union_uf :: "int list \<Rightarrow> nat \<Rightarrow> nat \<Rightarrow> (bool \<times> int list) comp" where
  "union_uf uf cell_i cell_j =
     and_then (ufind uf cell_i) (\<lambda>(i, uf1).
     and_then (ufind uf1 cell_j) (\<lambda>(j, uf2).
       if i \<noteq> j then
         (if uf2 ! i \<ge> uf2 ! j
          then ret (True, uf2[j := uf2 ! j + uf2 ! i, i := int j])
          else ret (True, uf2[i := uf2 ! i + uf2 ! j, j := int i]))
       else ret (False, uf2)))"

subsection \<open>The generator state\<close>

record maze =
  union_find :: "int list"
  wall_queues :: "wall_ref list list"
  walls_by_index :: "wall option list"
  start_x :: nat
  finish_x :: nat

definition W_LOW :: nat where "W_LOW = 1"
definition W_LOW_MED :: nat where "W_LOW_MED = 2"
definition W_MED :: nat where "W_MED = 5"
definition W_MED_HIGH :: nat where "W_MED_HIGH = 10"
definition W_HIGH :: nat where "W_HIGH = 15"
definition W_MAX :: nat where "W_MAX = 17"

definition weights :: "real list" where
  "weights = map (\<lambda>w. 2 powr (real w * 0.5))
     [W_MAX, W_HIGH, W_MED, W_HIGH, W_MED_HIGH, W_LOW_MED, W_MED, W_LOW_MED, W_LOW]"

text \<open>
  The expression \<^verbatim>\<open>get_wall_end_type(get_neighbour(wall, k), get_neighbour(wall, k+1),
  get_neighbour(wall, k+2))\<close> of \<^verbatim>\<open>update_wall_type\<close>.
\<close>

definition end_type_from :: "nat \<Rightarrow> nat \<Rightarrow> wall option list \<Rightarrow> wall \<Rightarrow> nat \<Rightarrow> nat comp" where
  "end_type_from W H ws w k =
     and_then (get_neighbour W H ws w k) (\<lambda>a.
     and_then (get_neighbour W H ws w (k + 1)) (\<lambda>b.
     and_then (get_neighbour W H ws w (k + 2)) (\<lambda>c.
     ret (get_wall_end_type (wall_at ws a) (wall_at ws b) (wall_at ws c)))))"

definition update_wall_type :: "nat \<Rightarrow> nat \<Rightarrow> wall_ref \<Rightarrow> maze \<times> rng \<Rightarrow> (maze \<times> rng) comp" where
  "update_wall_type W H r = (\<lambda>(s, g).
     case deref (walls_by_index s) r of
       None \<Rightarrow> throw TypeError
     | Some w \<Rightarrow>
         and_then (end_type_from W H (walls_by_index s) w 0) (\<lambda>t1.
         and_then (end_type_from W H (walls_by_index s) w 3) (\<lambda>t2.
           let new_type = t1 * 3 + t2 in
           if new_type > wall_typ w then
             (if new_type < length (wall_queues s) then
                and_then (push_rand g (wall_queues s ! new_type) r) (\<lambda>(q, g').
                  ret (s\<lparr>walls_by_index := (walls_by_index s)[r := Some (w\<lparr>wall_typ := new_type\<rparr>)],
                         wall_queues := (wall_queues s)[new_type := q]\<rparr>, g'))
              else throw IndexError)
           else ret (s, g))))"

text \<open>
  \<^verbatim>\<open>try_wall\<close>. The loop over the six neighbours reads only the coordinates and the
  orientation of \<^verbatim>\<open>wall\<close>, which never change, so the body takes them from \<open>w\<close>.
\<close>

definition update_neighbour :: "nat \<Rightarrow> nat \<Rightarrow> wall \<Rightarrow> nat \<Rightarrow> maze \<times> rng \<Rightarrow> (maze \<times> rng) comp" where
  "update_neighbour W H w i = (\<lambda>(s, g).
     and_then (get_neighbour W H (walls_by_index s) w i) (\<lambda>neighbour.
       case neighbour of
         None \<Rightarrow> ret (s, g)
       | Some n \<Rightarrow> update_wall_type W H n (s, g)))"

definition try_wall :: "nat \<Rightarrow> nat \<Rightarrow> wall_ref \<Rightarrow> maze \<times> rng \<Rightarrow> (bool \<times> maze \<times> rng) comp" where
  "try_wall W H r = (\<lambda>(s, g).
     case deref (walls_by_index s) r of
       None \<Rightarrow> throw TypeError
     | Some w \<Rightarrow>
         if clr w then ret (False, s, g)
         else
           (let cell_index1 = wall_y w * W + wall_x w;
                cell_index2 = cell_index1 + (if dr w then 1 else W) in
            and_then (union_uf (union_find s) cell_index1 cell_index2) (\<lambda>(merged, uf).
              if \<not> merged then ret (False, s\<lparr>union_find := uf\<rparr>, g)
              else
                and_then
                  (for_each (update_neighbour W H w) [0..<6]
                     (s\<lparr>union_find := uf,
                        walls_by_index := (walls_by_index s)[r := Some (w\<lparr>clr := True\<rparr>)]\<rparr>, g))
                  (\<lambda>(s', g'). ret (True, s', g')))))"

text \<open>
  \<^verbatim>\<open>step\<close>. \<open>select_queue\<close> is the \<^verbatim>\<open>for ... else\<close> loop that walks the queues and
  subtracts their weights from the threshold; the \<^verbatim>\<open>else\<close> branch gives queue 0.
\<close>

definition queue_weight :: "wall_ref list list \<Rightarrow> nat \<Rightarrow> real" where
  "queue_weight qs i = real (length (qs ! i)) * weights ! i"

fun select_queue :: "wall_ref list list \<Rightarrow> nat list \<Rightarrow> real \<Rightarrow> nat" where
  "select_queue qs [] random_threshold = 0"
| "select_queue qs (i # rest) random_threshold =
     (if random_threshold < queue_weight qs i then i
      else select_queue qs rest (random_threshold - queue_weight qs i))"

definition total_weight :: "wall_ref list list \<Rightarrow> real" where
  "total_weight qs = (\<Sum>i\<leftarrow>[0..<9]. queue_weight qs i)"

definition step :: "nat \<Rightarrow> nat \<Rightarrow> maze \<times> rng \<Rightarrow> (bool \<times> maze \<times> rng) comp" where
  "step W H = (\<lambda>(s, g).
     if length (wall_queues s) < 9 then throw IndexError
     else if total_weight (wall_queues s) \<le> 0 then ret (False, s, g)
     else
       (let (u, g1) = random_random g;
            random_threshold = total_weight (wall_queues s) * u;
            queue_index = select_queue (wall_queues s) [0..<9] random_threshold;
            queue = wall_queues s ! queue_index in
        if queue = [] then ret (True, s, g1)
        else
          (let wall = last queue;
               s1 = s\<lparr>wall_queues := (wall_queues s)[queue_index := butlast queue]\<rparr> in
           case deref (walls_by_index s1) wall of
             None \<Rightarrow> ret (True, s1, g1)
           | Some w \<Rightarrow>
               if wall_typ w = queue_index
               then and_then (try_wall W H wall (s1, g1)) (\<lambda>(opened, s2, g2). ret (True, s2, g2))
               else ret (True, s1, g1))))"

text \<open>
  \<^verbatim>\<open>init\<close>. It overwrites every global, so the state it starts from is a parameter
  only to show that. The body of the two nested loops is \<open>init_cell\<close>; \<open>add_wall\<close> is
  one of its two \<^verbatim>\<open>if ... else\<close> statements, with the test as first argument.
\<close>

definition add_wall :: "bool \<Rightarrow> nat \<Rightarrow> nat \<Rightarrow> bool \<Rightarrow> maze \<times> rng \<Rightarrow> (maze \<times> rng) comp" where
  "add_wall present x y d = (\<lambda>(s, g).
     if present then
       (let wall = \<lparr>wall_x = x, wall_y = y, dr = d, wall_typ = 0, clr = False\<rparr>;
            r = length (walls_by_index s);
            s1 = s\<lparr>walls_by_index := walls_by_index s @ [Some wall]\<rparr> in
        if 0 < length (wall_queues s1) then
          and_then (push_rand g (wall_queues s1 ! 0) r) (\<lambda>(q, g').
            ret (s1\<lparr>wall_queues := (wall_queues s1)[0 := q]\<rparr>, g'))
        else throw IndexError)
     else ret (s\<lparr>walls_by_index := walls_by_index s @ [None]\<rparr>, g))"

definition init_cell :: "nat \<Rightarrow> nat \<Rightarrow> nat \<Rightarrow> nat \<Rightarrow> maze \<times> rng \<Rightarrow> (maze \<times> rng) comp" where
  "init_cell W H y x sg =
     and_then (add_wall (int x < int W - 1) x y True sg)
              (add_wall (int y < int H - 1) x y False)"

definition init :: "nat \<Rightarrow> nat \<Rightarrow> maze \<times> rng \<Rightarrow> (maze \<times> rng) comp" where
  "init W H = (\<lambda>(s, g).
     and_then (rand_int g W) (\<lambda>(sx, g1).
     and_then (rand_int g1 W) (\<lambda>(fx, g2).
       for_each (\<lambda>y. for_each (init_cell W H y) [0..<W]) [0..<H]
         (s\<lparr>union_find := [], wall_queues := replicate 9 [], walls_by_index := [],
            start_x := sx, finish_x := fx\<rparr>, g2))))"


fun steps :: "nat \<Rightarrow> nat \<Rightarrow> nat \<Rightarrow> maze \<times> rng \<Rightarrow> (bool \<times> maze \<times> rng) comp" where
  "steps W H 0 sg = ret (True, sg)"
| "steps W H (Suc n) sg = and_then (steps W H n sg) (\<lambda>(continue, sg'). step W H sg')"

subsection \<open>Specification notions for the union-find list\<close>

text \<open>
  \<open>root_within uf n c\<close> follows at most \<open>n\<close> parent links from \<open>c\<close> and gives the root
  it reaches. \<open>rep uf c\<close> is the root of the cell, where a cell the list does not hold
  yet stands for itself (\<^verbatim>\<open>ufind\<close> would add it as a singleton). \<open>rooted\<close> says that the
  search for a root returns from every position; \<open>uf_inv\<close> adds that a root stores the
  negated number of cells of its component. \<open>same_component\<close> is the program's test
  \<^verbatim>\<open>ufind(a) == ufind(b)\<close>.
\<close>

primrec root_within :: "int list \<Rightarrow> nat \<Rightarrow> nat \<Rightarrow> nat option" where
  "root_within uf 0 c = (if c < length uf \<and> uf ! c < 0 then Some c else None)"
| "root_within uf (Suc n) c =
     (if c < length uf then (if uf ! c < 0 then Some c else root_within uf n (nat (uf ! c)))
      else None)"

definition rep :: "int list \<Rightarrow> nat \<Rightarrow> nat" where
  "rep uf c = (case find_root uf c of Some (Inr r) \<Rightarrow> r | _ \<Rightarrow> c)"

definition rooted :: "int list \<Rightarrow> bool" where
  "rooted uf \<longleftrightarrow> (\<forall>c<length uf. \<exists>r. find_root uf c = ret r)"

definition comp_size :: "int list \<Rightarrow> nat \<Rightarrow> nat" where
  "comp_size uf r = card {c. rep uf c = r}"

definition uf_inv :: "int list \<Rightarrow> bool" where
  "uf_inv uf \<longleftrightarrow>
     rooted uf \<and> (\<forall>r<length uf. uf ! r < 0 \<longrightarrow> uf ! r = - int (comp_size uf r))"

definition merged_rep :: "int list \<Rightarrow> nat \<Rightarrow> nat \<Rightarrow> nat \<Rightarrow> nat" where
  "merged_rep uf winner loser x = (if rep uf x = loser then winner else rep uf x)"

definition same_component :: "int list \<Rightarrow> nat \<Rightarrow> nat \<Rightarrow> bool comp" where
  "same_component uf a b =
     and_then (ufind uf a) (\<lambda>(i, uf1).
     and_then (ufind uf1 b) (\<lambda>(j, uf2).
     ret (i = j)))"

definition wall_index :: "nat \<Rightarrow> nat \<Rightarrow> nat \<Rightarrow> bool \<Rightarrow> nat" where
  "wall_index W x y d = (y * W + x) * 2 + (if d then 0 else 1)"

definition present :: "nat \<Rightarrow> nat \<Rightarrow> nat \<Rightarrow> nat \<Rightarrow> bool \<Rightarrow> bool" where
  "present W H x y d \<longleftrightarrow> x < W \<and> y < H \<and> (if d then x + 1 < W else y + 1 < H)"

definition walls_wf :: "nat \<Rightarrow> nat \<Rightarrow> wall option list \<Rightarrow> bool" where
  "walls_wf W H ws \<longleftrightarrow>
     length ws = 2 * W * H \<and>
     (\<forall>x<W. \<forall>y<H. \<forall>d.
        case ws ! wall_index W x y d of
          None \<Rightarrow> \<not> present W H x y d
        | Some w \<Rightarrow> present W H x y d \<and> wall_x w = x \<and> wall_y w = y \<and> dr w = d)"

definition joined :: "int list \<Rightarrow> nat \<Rightarrow> wall \<Rightarrow> bool" where
  "joined uf W w \<longleftrightarrow>
     rep uf (wall_y w * W + wall_x w) = rep uf (wall_y w * W + wall_x w + (if dr w then 1 else W))"

definition mu :: "maze \<Rightarrow> nat" where
  "mu s = sum_list (map length (wall_queues s)) +
          sum_list (map (\<lambda>w. case w of None \<Rightarrow> 0 | Some v \<Rightarrow> 8 - wall_typ v) (walls_by_index s))"

definition grows :: "maze \<Rightarrow> maze \<Rightarrow> bool" where
  "grows s s' \<longleftrightarrow>
     union_find s' = union_find s \<and> start_x s' = start_x s \<and> finish_x s' = finish_x s \<and>
     length (wall_queues s') = length (wall_queues s) \<and>
     (\<forall>k<length (wall_queues s). set (wall_queues s ! k) \<subseteq> set (wall_queues s' ! k)) \<and>
     length (walls_by_index s') = length (walls_by_index s) \<and>
     (\<forall>i<length (walls_by_index s).
        case walls_by_index s ! i of
          None \<Rightarrow> walls_by_index s' ! i = None
        | Some w \<Rightarrow>
            (\<exists>w'. walls_by_index s' ! i = Some w' \<and> wall_x w' = wall_x w \<and> wall_y w' = wall_y w \<and>
                  dr w' = dr w \<and> clr w' = clr w \<and> wall_typ w \<le> wall_typ w' \<and>
                  (wall_typ w' \<noteq> wall_typ w \<longrightarrow>
                     wall_typ w' < length (wall_queues s') \<and> i \<in> set (wall_queues s' ! wall_typ w')))) \<and>
     mu s' \<le> mu s"

definition advances :: "maze \<Rightarrow> maze \<Rightarrow> bool" where
  "advances s s' \<longleftrightarrow>
     length (wall_queues s') = length (wall_queues s) \<and>
     length (walls_by_index s') = length (walls_by_index s) \<and>
     (\<forall>i<length (walls_by_index s).
        case walls_by_index s ! i of
          None \<Rightarrow> walls_by_index s' ! i = None
        | Some w \<Rightarrow>
            (\<exists>w'. walls_by_index s' ! i = Some w' \<and> wall_x w' = wall_x w \<and> wall_y w' = wall_y w \<and>
                  dr w' = dr w \<and> (clr w \<longrightarrow> clr w') \<and> wall_typ w \<le> wall_typ w'))"

definition kruskal_inv :: "nat \<Rightarrow> maze \<Rightarrow> nat set \<Rightarrow> bool" where
  "kruskal_inv W s X \<longleftrightarrow>
     (\<forall>i<length (walls_by_index s).
        case walls_by_index s ! i of
          None \<Rightarrow> True
        | Some w \<Rightarrow>
            (clr w \<longrightarrow> joined (union_find s) W w) \<and>
            (i \<in> X \<or> joined (union_find s) W w \<or>
             (wall_typ w < length (wall_queues s) \<and> i \<in> set (wall_queues s ! wall_typ w))))"

definition count_inv :: "nat \<Rightarrow> nat \<Rightarrow> maze \<Rightarrow> bool" where
  "count_inv W H s \<longleftrightarrow>
     card (rep (union_find s) ` {..<W * H}) + length (filter removed (walls_by_index s)) = W * H"

definition maze_inv :: "nat \<Rightarrow> nat \<Rightarrow> maze \<Rightarrow> nat set \<Rightarrow> bool" where
  "maze_inv W H s X \<longleftrightarrow>
     length (wall_queues s) = 9 \<and> walls_wf W H (walls_by_index s) \<and> uf_inv (union_find s) \<and>
     kruskal_inv W s X \<and> count_inv W H s"

definition fresh_walls :: "nat \<Rightarrow> nat \<Rightarrow> maze \<Rightarrow> bool" where
  "fresh_walls W H s \<longleftrightarrow>
     union_find s = [] \<and> length (wall_queues s) = 9 \<and>
     (\<forall>i<length (walls_by_index s).
        case walls_by_index s ! i of
          None \<Rightarrow> \<not> present W H ((i div 2) mod W) ((i div 2) div W) (even i)
        | Some w \<Rightarrow>
            present W H ((i div 2) mod W) ((i div 2) div W) (even i) \<and>
            wall_x w = (i div 2) mod W \<and> wall_y w = (i div 2) div W \<and> dr w = even i \<and>
            wall_typ w = 0 \<and> \<not> clr w \<and> i \<in> set (wall_queues s ! 0))"

subsection \<open>Example states\<close>

text \<open>
  A state before \<^verbatim>\<open>init\<close> has run, the random source that always draws 0, the 2 by 1
  grid after \<^verbatim>\<open>init\<close> and after its only wall was opened, a state whose queue 0 holds
  a reference to a removed wall of type 3, and a 2 by 2 grid whose wall at index 1 is open.
\<close>

abbreviation blank_maze :: maze where
  "blank_maze \<equiv> \<lparr>union_find = [], wall_queues = [], walls_by_index = [], start_x = 0, finish_x = 0\<rparr>"

abbreviation zero_draws :: rng where
  "zero_draws \<equiv> (\<lambda>_. 0)"

abbreviation fresh_2x1 :: maze where
  "fresh_2x1 \<equiv> \<lparr>union_find = [], wall_queues = [[0], [], [], [], [], [], [], [], []],
     walls_by_index = [Some \<lparr>wall_x = 0, wall_y = 0, dr = True, wall_typ = 0, clr = False\<rparr>, None, None, None],
     start_x = 0, finish_x = 0\<rparr>"

abbreviation done_2x1 :: maze where
  "done_2x1 \<equiv> \<lparr>union_find = [1, - 2], wall_queues = [[], [], [], [], [], [], [], [], []],
     walls_by_index = [Some \<lparr>wall_x = 0, wall_y = 0, dr = True, wall_typ = 0, clr = True\<rparr>, None, None, None],
     start_x = 0, finish_x = 0\<rparr>"

abbreviation stale_2x1 :: maze where
  "stale_2x1 \<equiv> \<lparr>union_find = [1, - 2], wall_queues = [[0], [], [], [], [], [], [], [], []],
     walls_by_index = [Some \<lparr>wall_x = 0, wall_y = 0, dr = True, wall_typ = 3, clr = True\<rparr>, None, None, None],
     start_x = 0, finish_x = 0\<rparr>"

abbreviation open_2x2 :: maze where
  "open_2x2 \<equiv> \<lparr>union_find = [2, - 1, - 2], wall_queues = [[3, 4, 0], [], [], [], [], [], [], [], []],
     walls_by_index =
       [Some \<lparr>wall_x = 0, wall_y = 0, dr = True, wall_typ = 0, clr = False\<rparr>,
        Some \<lparr>wall_x = 0, wall_y = 0, dr = False, wall_typ = 0, clr = True\<rparr>,
        None,
        Some \<lparr>wall_x = 1, wall_y = 0, dr = False, wall_typ = 0, clr = False\<rparr>,
        Some \<lparr>wall_x = 0, wall_y = 1, dr = True, wall_typ = 0, clr = False\<rparr>,
        None, None, None],
     start_x = 0, finish_x = 0\<rparr>"

subsection \<open>The solver\<close>

text \<open>
  The solver keeps \<^verbatim>\<open>solution_state\<close> (a list of \<open>H\<close> rows of \<open>W\<close> depths, 0 for a cell
  not reached), \<^verbatim>\<open>solution_level\<close> (the frontier) and \<^verbatim>\<open>solution_depth\<close>. It reads
  \<^verbatim>\<open>walls_by_index\<close>, \<^verbatim>\<open>start_x\<close> and \<^verbatim>\<open>finish_x\<close> of the generator. The path it finds
  is not returned but painted: the cells that the backtrace passes to \<^verbatim>\<open>fill_cell\<close> with
  \<^verbatim>\<open>PATH_COLOUR\<close>, in that order, are the third component of the result of
  \<open>solution_step\<close>. Reads and writes of \<^verbatim>\<open>solution_state[ty][tx]\<close> stand behind the
  test \<^verbatim>\<open>0 <= tx < GRID_WIDTH and 0 <= ty < GRID_HEIGHT\<close> and the list has that shape,
  since only \<^verbatim>\<open>init_solution\<close> builds it; they are written with \<open>!\<close>. The read of
  \<^verbatim>\<open>solution_state[GRID_HEIGHT - 1][finish_x]\<close> has no such test and is checked.
\<close>

record solver =
  solution_state :: "nat list list"
  solution_level :: "(nat \<times> nat) list"
  solution_depth :: nat

definition init_solution :: "nat \<Rightarrow> nat \<Rightarrow> nat \<Rightarrow> solver comp" where
  "init_solution W H sx =
     (let st = replicate H (replicate W 0) in
      if 0 < H \<and> sx < W
      then ret \<lparr>solution_state = st[0 := (st ! 0)[sx := 1]],
                solution_level = [(sx, 0)], solution_depth = 1\<rparr>
      else throw IndexError)"

text \<open>
  The neighbour in direction \<open>n\<close>: \<^verbatim>\<open>tx = cx + (n & 1) - ((n >> 1) & 1)\<close> and
  \<^verbatim>\<open>ty = cy - 1 + (n - 1 if n >= 2 else n)\<close>; and the test on the wall in between.
\<close>

definition target :: "nat \<Rightarrow> nat \<Rightarrow> nat \<Rightarrow> int \<times> int" where
  "target cx cy n =
     (int cx + int (n mod 2) - int ((n div 2) mod 2),
      int cy - 1 + (if 2 \<le> n then int n - 1 else int n))"

definition walldiff :: "nat \<Rightarrow> int list" where
  "walldiff W = [- int W * 2 + 1, 0, - 2, 1]"

definition wall_open :: "wall option list \<Rightarrow> int \<Rightarrow> bool" where
  "wall_open ws idx \<longleftrightarrow>
     0 \<le> idx \<and> idx < int (length ws) \<and>
     (case ws ! nat idx of None \<Rightarrow> False | Some w \<Rightarrow> clr w)"

definition in_grid :: "nat \<Rightarrow> nat \<Rightarrow> int \<times> int \<Rightarrow> bool" where
  "in_grid W H t \<longleftrightarrow> 0 \<le> fst t \<and> fst t < int W \<and> 0 \<le> snd t \<and> snd t < int H"

definition visit ::
  "nat \<Rightarrow> nat \<Rightarrow> wall option list \<Rightarrow> nat \<Rightarrow> nat \<times> nat \<Rightarrow> nat \<Rightarrow>
   nat list list \<times> (nat \<times> nat) list \<Rightarrow> nat list list \<times> (nat \<times> nat) list" where
  "visit W H ws depth c n = (\<lambda>(st, level).
     let (cx, cy) = c; wallr = (cy * W + cx) * 2; (tx, ty) = target cx cy n in
     if in_grid W H (tx, ty) \<and> st ! nat ty ! nat tx = 0 then
       (if wall_open ws (int wallr + walldiff W ! n)
        then (st[nat ty := (st ! nat ty)[nat tx := depth]], level @ [(nat tx, nat ty)])
        else (st, level))
     else (st, level))"

definition expand ::
  "nat \<Rightarrow> nat \<Rightarrow> wall option list \<Rightarrow> nat \<Rightarrow> (nat \<times> nat) list \<Rightarrow> nat list list \<Rightarrow>
   nat list list \<times> (nat \<times> nat) list" where
  "expand W H ws depth old_level st =
     fold (\<lambda>c. fold (visit W H ws depth c) [0..<4]) old_level (st, [])"

text \<open>The backtrace: the first direction with a reached neighbour of lower depth behind an open wall.\<close>

definition lower :: "nat \<Rightarrow> nat \<Rightarrow> wall option list \<Rightarrow> nat list list \<Rightarrow> nat \<Rightarrow> nat \<Rightarrow> nat \<Rightarrow> bool" where
  "lower W H ws st x y n \<longleftrightarrow>
     (let (tx, ty) = target x y n in
      in_grid W H (tx, ty) \<and> st ! nat ty ! nat tx \<noteq> 0 \<and> st ! nat ty ! nat tx < st ! y ! x \<and>
      wall_open ws (int ((y * W + x) * 2) + walldiff W ! n))"

partial_function (option) backtrace ::
  "nat \<Rightarrow> nat \<Rightarrow> wall option list \<Rightarrow> nat list list \<Rightarrow> nat \<Rightarrow> nat \<Rightarrow> (nat \<times> nat) list \<Rightarrow>
   (nat \<times> nat) list option" where
  "backtrace W H ws st x y painted =
     (case find (lower W H ws st x y) [0..<4] of
        None \<Rightarrow> Some (painted @ [(x, y)])
      | Some n \<Rightarrow>
          backtrace W H ws st (nat (fst (target x y n))) (nat (snd (target x y n)))
            (painted @ [(x, y)]))"

definition nth_checked :: "'a list \<Rightarrow> nat \<Rightarrow> 'a comp" where
  "nth_checked xs i = (if i < length xs then ret (xs ! i) else throw IndexError)"

definition solution_step ::
  "nat \<Rightarrow> nat \<Rightarrow> wall option list \<Rightarrow> nat \<Rightarrow> solver \<Rightarrow> (bool \<times> solver \<times> (nat \<times> nat) list) comp" where
  "solution_step W H ws fx sv =
     (let depth = solution_depth sv + 1;
          (st, level) = expand W H ws depth (solution_level sv) (solution_state sv);
          sv' = \<lparr>solution_state = st, solution_level = level, solution_depth = depth\<rparr> in
      if H = 0 then throw IndexError
      else
        and_then (nth_checked st (H - 1)) (\<lambda>row.
        and_then (nth_checked row fx) (\<lambda>d.
          if d = 0 then ret (level \<noteq> [], sv', [])
          else
            (case backtrace W H ws st fx (H - 1) [] of
               None \<Rightarrow> None
             | Some painted \<Rightarrow> ret (False, sv', painted)))))"

text \<open>The main loop calls \<^verbatim>\<open>solution_step\<close> until it returns False.\<close>

partial_function (option) solution_loop ::
  "nat \<Rightarrow> nat \<Rightarrow> wall option list \<Rightarrow> nat \<Rightarrow> solver \<Rightarrow> (solver \<times> (nat \<times> nat) list) comp" where
  "solution_loop W H ws fx sv =
     (case solution_step W H ws fx sv of
        None \<Rightarrow> None
      | Some (Inl e) \<Rightarrow> Some (Inl e)
      | Some (Inr (continue, sv', painted)) \<Rightarrow>
          if continue then solution_loop W H ws fx sv' else Some (Inr (sv', painted)))"

definition solve :: "nat \<Rightarrow> nat \<Rightarrow> maze \<Rightarrow> (solver \<times> (nat \<times> nat) list) comp" where
  "solve W H s =
     and_then (init_solution W H (start_x s))
       (solution_loop W H (walls_by_index s) (finish_x s))"

subsection \<open>Specification notions for the solver\<close>

text \<open>
  Two cells are \<open>linked\<close> when they are neighbours in the grid and the wall between them
  is removed: the wall with \<^verbatim>\<open>dr\<close> true of the left one, or the wall with \<^verbatim>\<open>dr\<close> false of
  the upper one. A \<open>walk\<close> from \<open>a\<close> to \<open>b\<close> is a non-empty list of cells from \<open>a\<close> to \<open>b\<close>
  whose consecutive cells are linked.
\<close>

definition linked :: "nat \<Rightarrow> nat \<Rightarrow> wall option list \<Rightarrow> nat \<times> nat \<Rightarrow> nat \<times> nat \<Rightarrow> bool" where
  "linked W H ws a b \<longleftrightarrow>
     fst a < W \<and> snd a < H \<and> fst b < W \<and> snd b < H \<and>
     ((snd b = snd a \<and> fst b = fst a + 1 \<and> removed (deref ws (wall_index W (fst a) (snd a) True))) \<or>
      (snd b = snd a \<and> fst a = fst b + 1 \<and> removed (deref ws (wall_index W (fst b) (snd b) True))) \<or>
      (fst b = fst a \<and> snd b = snd a + 1 \<and> removed (deref ws (wall_index W (fst a) (snd a) False))) \<or>
      (fst b = fst a \<and> snd a = snd b + 1 \<and> removed (deref ws (wall_index W (fst b) (snd b) False))))"

definition walk :: "nat \<Rightarrow> nat \<Rightarrow> wall option list \<Rightarrow> nat \<times> nat \<Rightarrow> nat \<times> nat \<Rightarrow> (nat \<times> nat) list \<Rightarrow> bool" where
  "walk W H ws a b p \<longleftrightarrow> p \<noteq> [] \<and> hd p = a \<and> last p = b \<and> successively (linked W H ws) p"

definition depth_at :: "nat list list \<Rightarrow> nat \<times> nat \<Rightarrow> nat" where
  "depth_at st c = st ! snd c ! fst c"

text \<open>The depth table has \<open>H\<close> rows of \<open>W\<close> entries.\<close>

definition shape :: "nat \<Rightarrow> nat \<Rightarrow> nat list list \<Rightarrow> bool" where
  "shape W H st \<longleftrightarrow> length st = H \<and> (\<forall>y<H. length (st ! y) = W)"

text \<open>
  A move \<open>(c, n)\<close> is a frontier cell with one of the four directions, in the order the
  two nested loops take them; it \<open>reaches\<close> the cell \<open>t\<close> when \<open>t\<close> is the neighbour of \<open>c\<close>
  in direction \<open>n\<close>, inside the grid, behind a removed wall.
\<close>

definition reaches ::
  "nat \<Rightarrow> nat \<Rightarrow> wall option list \<Rightarrow> (nat \<times> nat) \<times> nat \<Rightarrow> nat \<times> nat \<Rightarrow> bool" where
  "reaches W H ws m t \<longleftrightarrow>
     in_grid W H (target (fst (fst m)) (snd (fst m)) (snd m)) \<and>
     t = (nat (fst (target (fst (fst m)) (snd (fst m)) (snd m))),
          nat (snd (target (fst (fst m)) (snd (fst m)) (snd m)))) \<and>
     wall_open ws (int ((snd (fst m) * W + fst (fst m)) * 2) + walldiff W ! snd m)"

definition moves :: "(nat \<times> nat) list \<Rightarrow> ((nat \<times> nat) \<times> nat) list" where
  "moves level = concat (map (\<lambda>c. map (Pair c) [0..<4]) level)"

text \<open>
  The invariant of the search with entrance \<open>e\<close>: a cell with a depth other than 0 has
  depth at most \<^verbatim>\<open>solution_depth\<close> and is the end of a walk of that many cells from \<open>e\<close>;
  the end of a walk of at most \<^verbatim>\<open>solution_depth\<close> cells, or of any walk if it has a depth,
  has a depth that is at most the length of the walk; and the frontier holds exactly
  the cells of depth \<^verbatim>\<open>solution_depth\<close>.
\<close>

definition bfs_inv :: "nat \<Rightarrow> nat \<Rightarrow> wall option list \<Rightarrow> nat \<times> nat \<Rightarrow> solver \<Rightarrow> bool" where
  "bfs_inv W H ws e sv \<longleftrightarrow>
     shape W H (solution_state sv) \<and> fst e < W \<and> snd e < H \<and> 0 < solution_depth sv \<and>
     (\<forall>c. fst c < W \<and> snd c < H \<and> depth_at (solution_state sv) c \<noteq> 0 \<longrightarrow>
          depth_at (solution_state sv) c \<le> solution_depth sv \<and>
          (\<exists>p. walk W H ws e c p \<and> length p = depth_at (solution_state sv) c)) \<and>
     (\<forall>c p. walk W H ws e c p \<and> (length p \<le> solution_depth sv \<or> depth_at (solution_state sv) c \<noteq> 0) \<longrightarrow>
          depth_at (solution_state sv) c \<noteq> 0 \<and> depth_at (solution_state sv) c \<le> length p) \<and>
     set (solution_level sv) =
       {c. fst c < W \<and> snd c < H \<and> depth_at (solution_state sv) c = solution_depth sv}"

text \<open>
  The number of cells not reached yet, which every call of \<^verbatim>\<open>solution_step\<close> that
  returns True lowers; and what holds when it returns False: either the exit has no
  depth, the frontier is empty and nothing was painted, or the painted cells are a walk
  from the exit \<open>x\<close> to the entrance \<open>e\<close>, as many as the depth of the exit, all distinct.
\<close>

definition unvisited :: "nat \<Rightarrow> nat \<Rightarrow> nat list list \<Rightarrow> nat" where
  "unvisited W H st = card {c. fst c < W \<and> snd c < H \<and> depth_at st c = 0}"

definition outcome ::
  "nat \<Rightarrow> nat \<Rightarrow> wall option list \<Rightarrow> nat \<times> nat \<Rightarrow> nat \<times> nat \<Rightarrow> solver \<Rightarrow> (nat \<times> nat) list \<Rightarrow> bool" where
  "outcome W H ws e x sv painted \<longleftrightarrow>
     (if depth_at (solution_state sv) x = 0 then painted = [] \<and> solution_level sv = []
      else walk W H ws x e painted \<and> length painted = depth_at (solution_state sv) x \<and>
           distinct painted)"

text \<open>
  The cell with index \<open>c\<close> in the union-find list, and the second half of the invariant
  of the generator: two cells with the same representative are joined by a walk through
  removed walls.
\<close>

definition cell_of :: "nat \<Rightarrow> nat \<Rightarrow> nat \<times> nat" where
  "cell_of W c = (c mod W, c div W)"

definition reach_inv :: "nat \<Rightarrow> nat \<Rightarrow> maze \<Rightarrow> bool" where
  "reach_inv W H s \<longleftrightarrow>
     (\<forall>a<W * H. \<forall>b<W * H. rep (union_find s) a = rep (union_find s) b \<longrightarrow>
        (\<exists>p. walk W H (walls_by_index s) (cell_of W a) (cell_of W b) p))"

text \<open>
  A random source whose second draw is 1, so that on the grid of two cells the exit is
  in the second column; the maze after \<^verbatim>\<open>init\<close>, the finished maze, and the state of the
  solver at the end.
\<close>

abbreviation exit_draws :: rng where
  "exit_draws \<equiv> (\<lambda>k. if k = Suc 0 then 1 else 0)"

abbreviation fresh_exit_2x1 :: maze where
  "fresh_exit_2x1 \<equiv> \<lparr>union_find = [], wall_queues = [[0], [], [], [], [], [], [], [], []],
     walls_by_index = [Some \<lparr>wall_x = 0, wall_y = 0, dr = True, wall_typ = 0, clr = False\<rparr>, None, None, None],
     start_x = 0, finish_x = 1\<rparr>"

abbreviation done_exit_2x1 :: maze where
  "done_exit_2x1 \<equiv> \<lparr>union_find = [1, - 2], wall_queues = [[], [], [], [], [], [], [], [], []],
     walls_by_index = [Some \<lparr>wall_x = 0, wall_y = 0, dr = True, wall_typ = 0, clr = True\<rparr>, None, None, None],
     start_x = 0, finish_x = 1\<rparr>"

abbreviation solved_2x1 :: solver where
  "solved_2x1 \<equiv> \<lparr>solution_state = [[1, 2]], solution_level = [(1, 0)], solution_depth = 2\<rparr>"

section \<open>Properties\<close>

subsection \<open>Endpoint classification\<close>

lemma get_wall_end_type_le_2: "get_wall_end_type w1 w2 w3 \<le> 2"
  by (simp add: get_wall_end_type_def)

lemma get_wall_end_type_cases:
  "get_wall_end_type w1 w2 w3 =
     (if removed w1 \<or> removed w3 then min 2 (removed_count w1 w2 w3) else 0)"
  by (simp add: get_wall_end_type_def removed_count_def)

text \<open>
  C2. The contract asks for 1 when exactly one of the three walls is removed. When
  that wall is the second argument and the other two are present but closed,
  \<open>get_wall_end_type\<close> returns 0: neither outer test succeeds and the second wall is
  never looked at.
\<close>

theorem get_wall_end_type_middle_only:
  "get_wall_end_type
     (Some \<lparr>wall_x = 0, wall_y = 0, dr = False, wall_typ = 0, clr = False\<rparr>)
     (Some \<lparr>wall_x = 0, wall_y = 1, dr = True, wall_typ = 0, clr = True\<rparr>)
     (Some \<lparr>wall_x = 1, wall_y = 0, dr = False, wall_typ = 0, clr = False\<rparr>) = 0
   \<and> removed_count
     (Some \<lparr>wall_x = 0, wall_y = 0, dr = False, wall_typ = 0, clr = False\<rparr>)
     (Some \<lparr>wall_x = 0, wall_y = 1, dr = True, wall_typ = 0, clr = True\<rparr>)
     (Some \<lparr>wall_x = 1, wall_y = 0, dr = False, wall_typ = 0, clr = False\<rparr>) = 1"
  by (simp add: get_wall_end_type_def removed_count_def removed_def)

subsection \<open>Neighbour lookup in the two scripts\<close>

lemma get_neighbour_vertical_agree:
  "\<not> dr w \<Longrightarrow> n < 6 \<Longrightarrow> getNeighbour W H ws w n = get_neighbour W H ws w n"
  by (simp add: getNeighbour_def get_neighbour_def offsets_False_def VERTICAL_OFFSETS_def)

lemma get_neighbour_second_end_agree:
  "3 \<le> n \<Longrightarrow> n < 6 \<Longrightarrow> getNeighbour W H ws w n = get_neighbour W H ws w n"
proof -
  assume "3 \<le> n" "n < 6"
  then have "n = 3 \<or> n = 4 \<or> n = 5" by arith
  then show ?thesis
    by (auto simp add: getNeighbour_def get_neighbour_def offsets_False_def VERTICAL_OFFSETS_def
        offsets_True_def HORIZONTAL_OFFSETS_def)
qed

text \<open>
  C6. For a wall with \<^verbatim>\<open>dr\<close> true the first three offsets of the two scripts differ.
  On the 2 by 2 grid, for the wall at (0, 1) and neighbour 0, \<^verbatim>\<open>getNeighbour\<close> looks at
  (-1, 1), outside the grid, and returns None, while \<^verbatim>\<open>get_neighbour\<close> looks at
  (0, 0) and returns the wall stored at index 1.
\<close>

theorem neighbour_lookups_differ:
  "getNeighbour 2 2
     [Some \<lparr>wall_x = 0, wall_y = 0, dr = True, wall_typ = 0, clr = False\<rparr>,
      Some \<lparr>wall_x = 0, wall_y = 0, dr = False, wall_typ = 0, clr = False\<rparr>,
      None,
      Some \<lparr>wall_x = 1, wall_y = 0, dr = False, wall_typ = 0, clr = False\<rparr>,
      Some \<lparr>wall_x = 0, wall_y = 1, dr = True, wall_typ = 0, clr = False\<rparr>,
      None, None, None]
     \<lparr>wall_x = 0, wall_y = 1, dr = True, wall_typ = 0, clr = False\<rparr> 0 = ret None
   \<and> get_neighbour 2 2
     [Some \<lparr>wall_x = 0, wall_y = 0, dr = True, wall_typ = 0, clr = False\<rparr>,
      Some \<lparr>wall_x = 0, wall_y = 0, dr = False, wall_typ = 0, clr = False\<rparr>,
      None,
      Some \<lparr>wall_x = 1, wall_y = 0, dr = False, wall_typ = 0, clr = False\<rparr>,
      Some \<lparr>wall_x = 0, wall_y = 1, dr = True, wall_typ = 0, clr = False\<rparr>,
      None, None, None]
     \<lparr>wall_x = 0, wall_y = 1, dr = True, wall_typ = 0, clr = False\<rparr> 0 = ret (Some 1)"
  by (simp add: getNeighbour_def get_neighbour_def offsets_True_def HORIZONTAL_OFFSETS_def
      get_wall_def)

subsection \<open>Basic facts about computations\<close>

lemma ret_inject [simp]: "ret a = ret b \<longleftrightarrow> a = b"
  by (simp add: ret_def)

lemma ret_not_throw [simp]: "ret a \<noteq> throw e" "throw e \<noteq> ret a" "ret a \<noteq> None" "throw e \<noteq> None"
  by (simp_all add: ret_def throw_def)

lemma and_then_ret [simp]: "and_then (ret v) f = f v"
  by (simp add: and_then_def ret_def)

lemma and_then_throw [simp]: "and_then (throw e) f = throw e"
  by (simp add: and_then_def throw_def)

lemma and_then_None [simp]: "and_then None f = None"
  by (simp add: and_then_def)

lemma root_within_find_root:
  "root_within uf n c = Some r \<Longrightarrow> find_root uf c = ret r"
proof (induction n arbitrary: c)
  case 0
  then show ?case by (subst find_root.simps) (auto split: if_splits)
next
  case (Suc n)
  then show ?case by (subst find_root.simps) (auto split: if_splits)
qed

lemma find_root_root_within_aux:
  "find_root uf c = Some y \<Longrightarrow> (\<forall>r. y = Inr r \<longrightarrow> (\<exists>n. root_within uf n c = Some r))"
proof (rule find_root.raw_induct[where P = "\<lambda>uf c y. \<forall>r. y = Inr r \<longrightarrow> (\<exists>n. root_within uf n c = Some r)"], goal_cases)
  case (1 fr uf cell y)
  show ?case
  proof (intro allI impI)
    fix r assume y: "y = Inr r"
    show "\<exists>n. root_within uf n cell = Some r"
    proof (cases "length uf \<le> cell")
      case True
      with 1(3) y show ?thesis by (simp add: throw_def)
    next
      case inr: False
      show ?thesis
      proof (cases "0 \<le> uf ! cell")
        case True
        with inr 1(3) have "fr uf (nat (uf ! cell)) = Some y" by simp
        from 1(2)[OF this] y obtain n where "root_within uf n (nat (uf ! cell)) = Some r" by blast
        with inr True have "root_within uf (Suc n) cell = Some r" by simp
        then show ?thesis ..
      next
        case False
        with inr 1(3) y have "cell = r" by (simp add: ret_def)
        with inr False have "root_within uf 0 cell = Some r" by simp
        then show ?thesis ..
      qed
    qed
  qed
qed

lemma find_root_root_within:
  "find_root uf c = ret r \<Longrightarrow> \<exists>n. root_within uf n c = Some r"
  using find_root_root_within_aux[of uf c "Inr r"] by (simp add: ret_def)

lemma find_root_iff: "find_root uf c = ret r \<longleftrightarrow> (\<exists>n. root_within uf n c = Some r)"
  using find_root_root_within root_within_find_root by blast

lemma root_within_mono: "root_within uf n c = Some r \<Longrightarrow> root_within uf (n + k) c = Some r"
proof (induction n arbitrary: c)
  case 0
  then show ?case by (cases k) (auto split: if_splits)
next
  case (Suc n)
  then show ?case by (auto split: if_splits)
qed

lemma root_within_le: "root_within uf n c = Some r \<Longrightarrow> n \<le> m \<Longrightarrow> root_within uf m c = Some r"
  using root_within_mono[of uf n c r "m - n"] by simp

lemma root_within_root: "root_within uf n c = Some r \<Longrightarrow> c < length uf \<and> r < length uf \<and> uf ! r < 0"
  by (induction n arbitrary: c) (auto split: if_splits)

lemma root_within_of_root: "r < length uf \<Longrightarrow> uf ! r < 0 \<Longrightarrow> root_within uf n r = Some r"
  by (cases n) auto

lemma rep_eqI: "root_within uf n c = Some r \<Longrightarrow> rep uf c = r"
  by (simp add: rep_def root_within_find_root ret_def)

lemma rep_out_of_range: "length uf \<le> c \<Longrightarrow> rep uf c = c"
  by (subst rep_def, subst find_root.simps) (simp add: throw_def)

lemma find_root_in_range: "find_root uf c = ret r \<Longrightarrow> c < length uf \<and> r < length uf \<and> uf ! r < 0"
  by (auto simp add: find_root_iff dest: root_within_root)

lemma rooted_root_within:
  "rooted uf \<Longrightarrow> c < length uf \<Longrightarrow> \<exists>n. root_within uf n c = Some (rep uf c)"
  by (metis rooted_def find_root_iff rep_eqI)

lemma rooted_find_root: "rooted uf \<Longrightarrow> c < length uf \<Longrightarrow> find_root uf c = ret (rep uf c)"
  by (metis rooted_root_within root_within_find_root)

lemma rep_in_range: "rooted uf \<Longrightarrow> c < length uf \<Longrightarrow> rep uf c < length uf \<and> uf ! rep uf c < 0"
  by (metis rooted_find_root find_root_in_range)

lemma rep_root: "r < length uf \<Longrightarrow> uf ! r < 0 \<Longrightarrow> rep uf r = r"
  by (rule rep_eqI[of uf 0]) simp

lemma rep_idem: "rooted uf \<Longrightarrow> rep uf (rep uf c) = rep uf c"
  by (cases "c < length uf") (auto simp add: rep_out_of_range rep_root rep_in_range)

lemma rep_less_iff: "rooted uf \<Longrightarrow> rep uf c < length uf \<longleftrightarrow> c < length uf"
  using rep_in_range[of uf c] rep_out_of_range[of uf c] by (cases "c < length uf") auto

lemma rootedI:
  "(\<And>c. c < length uf \<Longrightarrow> \<exists>n r. root_within uf n c = Some r) \<Longrightarrow> rooted uf"
  unfolding rooted_def using root_within_find_root by blast

lemma root_within_unique:
  assumes "root_within uf n c = Some r" "root_within uf m c = Some r'"
  shows "r = r'"
proof -
  have "root_within uf (max n m) c = Some r" "root_within uf (max n m) c = Some r'"
    using assms by (auto intro: root_within_le)
  then show ?thesis by simp
qed

lemma finite_component: "r < length uf \<Longrightarrow> finite {c. rep uf c = r}"
proof (rule finite_subset)
  assume r: "r < length uf"
  show "{c. rep uf c = r} \<subseteq> {..<length uf}"
  proof
    fix c assume "c \<in> {c. rep uf c = r}"
    then have "rep uf c = r" by simp
    with r rep_out_of_range[of uf c] show "c \<in> {..<length uf}" by (cases "c < length uf") auto
  qed
qed simp

subsection \<open>One compression step\<close>

lemma compress_step_root_within:
  assumes src: "root_within uf m src = Some rt" and nonroot: "0 \<le> uf ! src"
  shows "root_within uf n c = Some r \<Longrightarrow> root_within (uf[src := int rt]) n c = Some r"
proof (induction n arbitrary: c)
  case 0
  then have "c < length uf" "uf ! c < 0" "c = r" by (auto split: if_splits)
  with nonroot have "c \<noteq> src" by auto
  with \<open>c < length uf\<close> \<open>uf ! c < 0\<close> \<open>c = r\<close> show ?case by simp
next
  case (Suc n)
  from Suc.prems have c: "c < length uf" by (auto split: if_splits)
  from src have rtf: "rt < length uf" "uf ! rt < 0" "src < length uf"
    using root_within_root by blast+
  with nonroot have neq: "rt \<noteq> src" by auto
  show ?case
  proof (cases "uf ! c < 0")
    case True
    with nonroot have "c \<noteq> src" by auto
    with True c Suc.prems show ?thesis by simp
  next
    case False
    with c Suc.prems have p: "root_within uf n (nat (uf ! c)) = Some r" by simp
    show ?thesis
    proof (cases "c = src")
      case True
      with Suc.prems src have "r = rt" using root_within_unique by blast
      moreover have "root_within (uf[src := int rt]) n rt = Some rt"
        using rtf neq by (intro root_within_of_root) auto
      ultimately show ?thesis using True c by simp
    next
      case cs: False
      with False c Suc.IH[OF p] show ?thesis by simp
    qed
  qed
qed

lemma compress_step:
  assumes inv: "rooted uf" and src: "root_within uf m src = Some rt" and nonroot: "0 \<le> uf ! src"
  shows "rooted (uf[src := int rt]) \<and> (\<forall>c. rep (uf[src := int rt]) c = rep uf c)"
proof -
  let ?uf = "uf[src := int rt]"
  have fw: "\<And>c. c < length uf \<Longrightarrow> \<exists>n. root_within ?uf n c = Some (rep uf c)"
    using rooted_root_within[OF inv] compress_step_root_within[OF src nonroot] by blast
  have "rooted ?uf" by (rule rootedI) (use fw in force)
  moreover have "rep ?uf c = rep uf c" for c
  proof (cases "c < length uf")
    case True
    with fw show ?thesis by (auto dest: rep_eqI)
  next
    case False
    then show ?thesis by (simp add: rep_out_of_range)
  qed
  ultimately show ?thesis by blast
qed

lemma compress_correct:
  "rooted uf \<Longrightarrow> root_within uf n src = Some rt \<Longrightarrow>
   \<exists>uf'. compress uf src rt = ret uf' \<and> length uf' = length uf \<and> rooted uf' \<and>
         (\<forall>c. rep uf' c = rep uf c) \<and>
         (\<forall>k<length uf. uf' ! k \<noteq> uf ! k \<longrightarrow> uf' ! k = int rt \<and> rep uf k = rt \<and> 0 \<le> uf ! k)"
proof (induction n arbitrary: uf src)
  case 0
  then have "src < length uf" "uf ! src < 0" by (auto split: if_splits)
  then have "compress uf src rt = ret uf" by (subst compress.simps) simp
  with 0 show ?case by auto
next
  case (Suc n)
  from Suc.prems(2) have s: "src < length uf" by (auto split: if_splits)
  show ?case
  proof (cases "0 \<le> uf ! src \<and> uf ! src \<noteq> int rt")
    case False
    with s have "compress uf src rt = ret uf" by (subst compress.simps) auto
    with Suc.prems show ?thesis by auto
  next
    case True
    let ?uf = "uf[src := int rt]"
    let ?p = "nat (uf ! src)"
    from True s Suc.prems(2) have p: "root_within uf n ?p = Some rt" by simp
    from True have nonroot: "0 \<le> uf ! src" by simp
    have p': "root_within ?uf n ?p = Some rt"
      using compress_step_root_within[OF Suc.prems(2) nonroot p] .
    have st: "rooted ?uf" "\<And>c. rep ?uf c = rep uf c"
      using compress_step[OF Suc.prems(1) Suc.prems(2) nonroot] by auto
    from Suc.IH[OF st(1) p'] obtain uf' where uf':
      "compress ?uf ?p rt = ret uf'" "length uf' = length ?uf" "rooted uf'"
      "\<forall>c. rep uf' c = rep ?uf c"
      "\<forall>k<length ?uf. uf' ! k \<noteq> ?uf ! k \<longrightarrow> uf' ! k = int rt \<and> rep ?uf k = rt \<and> 0 \<le> ?uf ! k"
      by blast
    have c: "compress uf src rt = ret uf'"
      using True s uf'(1) by (subst compress.simps) simp
    have srcrep: "rep uf src = rt" using Suc.prems(2) by (rule rep_eqI)
    have "uf' ! k = int rt \<and> rep uf k = rt \<and> 0 \<le> uf ! k"
      if k: "k < length uf" "uf' ! k \<noteq> uf ! k" for k
    proof (cases "k = src")
      case ks: True
      show ?thesis
      proof (cases "uf' ! k = ?uf ! k")
        case True
        with ks s srcrep nonroot show ?thesis by simp
      next
        case False
        with uf'(5) k(1) have "uf' ! k = int rt" by simp
        with ks srcrep nonroot show ?thesis by simp
      qed
    next
      case False
      with k have "uf' ! k \<noteq> ?uf ! k" by simp
      with uf'(5) k(1) have "uf' ! k = int rt \<and> rep ?uf k = rt \<and> 0 \<le> ?uf ! k" by simp
      with False st(2) show ?thesis by simp
    qed
    with c uf'(2,3,4) st(2) show ?thesis by auto
  qed
qed


subsection \<open>Growth\<close>

lemma root_within_append:
  "root_within uf n c = Some r \<Longrightarrow> root_within (uf @ ys) n c = Some r"
proof (induction n arbitrary: c)
  case 0
  then show ?case by (auto simp add: nth_append split: if_splits)
next
  case (Suc n)
  then show ?case by (auto simp add: nth_append split: if_splits)
qed

lemma length_grow: "length (grow uf c) = max (length uf) (Suc c)"
  by (simp add: grow_def)

lemma grow_old: "k < length uf \<Longrightarrow> grow uf c ! k = uf ! k"
  by (simp add: grow_def nth_append)

lemma grow_new: "length uf \<le> k \<Longrightarrow> k < length (grow uf c) \<Longrightarrow> grow uf c ! k = - 1"
  by (simp add: grow_def nth_append)

lemma grow_correct:
  assumes inv: "rooted uf"
  shows "rooted (grow uf c) \<and> (\<forall>x. rep (grow uf c) x = rep uf x)"
proof -
  have fw: "\<exists>n. root_within (grow uf c) n x = Some (rep uf x)" if "x < length (grow uf c)" for x
  proof (cases "x < length uf")
    case True
    then obtain n where "root_within uf n x = Some (rep uf x)"
      using rooted_root_within[OF inv] by blast
    then have "root_within (grow uf c) n x = Some (rep uf x)"
      unfolding grow_def by (rule root_within_append)
    then show ?thesis ..
  next
    case False
    then have "grow uf c ! x = - 1" "rep uf x = x"
      using that by (simp_all add: grow_new rep_out_of_range)
    with that have "root_within (grow uf c) 0 x = Some (rep uf x)" by simp
    then show ?thesis ..
  qed
  have "rooted (grow uf c)" by (rule rootedI) (use fw in force)
  moreover have "rep (grow uf c) x = rep uf x" for x
  proof (cases "x < length (grow uf c)")
    case True
    with fw show ?thesis by (auto dest: rep_eqI)
  next
    case False
    then have "length (grow uf c) \<le> x" "length uf \<le> x" by (auto simp add: length_grow)
    then show ?thesis by (simp add: rep_out_of_range)
  qed
  ultimately show ?thesis by blast
qed

subsection \<open>ufind\<close>

lemma ufind_rooted:
  assumes inv: "rooted uf"
  shows "\<exists>uf'. ufind uf c = ret (rep uf c, uf') \<and> rooted uf' \<and> (\<forall>x. rep uf' x = rep uf x) \<and>
           length uf' = max (length uf) (Suc c) \<and>
           (\<forall>k<length uf. uf' ! k \<noteq> uf ! k \<longrightarrow>
               uf' ! k = int (rep uf c) \<and> rep uf k = rep uf c \<and> 0 \<le> uf ! k) \<and>
           (\<forall>k. length uf \<le> k \<longrightarrow> k < length uf' \<longrightarrow> uf' ! k = - 1)"
proof -
  let ?g = "grow uf c"
  have g: "rooted ?g" "\<And>x. rep ?g x = rep uf x" using grow_correct[OF inv] by auto
  have c: "c < length ?g" by (simp add: length_grow)
  from rooted_root_within[OF g(1) c] obtain n where n: "root_within ?g n c = Some (rep uf c)"
    by (auto simp add: g(2))
  then have fr: "find_root ?g c = ret (rep uf c)" by (rule root_within_find_root)
  from compress_correct[OF g(1) n] obtain uf' where uf':
    "compress ?g c (rep uf c) = ret uf'" "length uf' = length ?g" "rooted uf'"
    "\<forall>x. rep uf' x = rep ?g x"
    "\<forall>k<length ?g. uf' ! k \<noteq> ?g ! k \<longrightarrow> uf' ! k = int (rep uf c) \<and> rep ?g k = rep uf c \<and> 0 \<le> ?g ! k"
    by blast
  have a1: "ufind uf c = ret (rep uf c, uf')"
    by (simp add: ufind_def Let_def fr uf'(1))
  have a2: "\<forall>x. rep uf' x = rep uf x" using uf'(4) g(2) by simp
  have a3: "length uf' = max (length uf) (Suc c)" using uf'(2) by (simp add: length_grow)
  have a4: "\<forall>k<length uf. uf' ! k \<noteq> uf ! k \<longrightarrow>
               uf' ! k = int (rep uf c) \<and> rep uf k = rep uf c \<and> 0 \<le> uf ! k"
  proof (intro allI impI)
    fix k assume k: "k < length uf" "uf' ! k \<noteq> uf ! k"
    then have "k < length ?g" "uf' ! k \<noteq> ?g ! k" by (simp_all add: length_grow grow_old)
    with uf'(5) have "uf' ! k = int (rep uf c) \<and> rep ?g k = rep uf c \<and> 0 \<le> ?g ! k" by blast
    with k(1) show "uf' ! k = int (rep uf c) \<and> rep uf k = rep uf c \<and> 0 \<le> uf ! k"
      by (simp add: g(2) grow_old)
  qed
  have a5: "\<forall>k. length uf \<le> k \<longrightarrow> k < length uf' \<longrightarrow> uf' ! k = - 1"
  proof (intro allI impI)
    fix k assume k: "length uf \<le> k" "k < length uf'"
    then have gk: "k < length ?g" "?g ! k = - 1" using uf'(2) by (simp_all add: grow_new)
    show "uf' ! k = - 1"
    proof (rule ccontr)
      assume "uf' ! k \<noteq> - 1"
      with gk uf'(5) have "0 \<le> ?g ! k" by auto
      with gk show False by simp
    qed
  qed
  show ?thesis
    by (intro exI[of _ uf'] conjI) (fact a1 uf'(3) a2 a3 a4 a5)+
qed

lemma singleton_component:
  assumes "rooted uf" "length uf \<le> r"
  shows "{c. rep uf c = r} = {r}"
proof (intro equalityI subsetI)
  fix c assume "c \<in> {c. rep uf c = r}"
  then have c: "rep uf c = r" by simp
  have "\<not> c < length uf"
  proof
    assume "c < length uf"
    then have "rep uf c < length uf" using rep_in_range[OF assms(1)] by blast
    with c assms(2) show False by simp
  qed
  then have "rep uf c = c" by (simp add: rep_out_of_range)
  with c show "c \<in> {r}" by simp
next
  fix c assume "c \<in> {r}"
  with assms(2) show "c \<in> {c. rep uf c = r}" by (simp add: rep_out_of_range)
qed

lemma ufind_correct:
  assumes inv: "uf_inv uf"
  shows "\<exists>uf'. ufind uf c = ret (rep uf c, uf') \<and> uf_inv uf' \<and> (\<forall>x. rep uf' x = rep uf x) \<and>
           length uf' = max (length uf) (Suc c) \<and> uf' ! rep uf c < 0 \<and>
           (\<forall>k<length uf. uf' ! k \<noteq> uf ! k \<longrightarrow>
               uf' ! k = int (rep uf c) \<and> rep uf k = rep uf c \<and> 0 \<le> uf ! k) \<and>
           (\<forall>k. length uf \<le> k \<longrightarrow> k < length uf' \<longrightarrow> uf' ! k = - 1)"
proof -
  from inv have r: "rooted uf"
    and sz: "\<And>r. r < length uf \<Longrightarrow> uf ! r < 0 \<Longrightarrow> uf ! r = - int (card {c. rep uf c = r})"
    by (auto simp add: uf_inv_def comp_size_def)
  from ufind_rooted[OF r, of c] obtain uf' where uf':
    "ufind uf c = ret (rep uf c, uf')" "rooted uf'" "\<forall>x. rep uf' x = rep uf x"
    "length uf' = max (length uf) (Suc c)"
    "\<forall>k<length uf. uf' ! k \<noteq> uf ! k \<longrightarrow> uf' ! k = int (rep uf c) \<and> rep uf k = rep uf c \<and> 0 \<le> uf ! k"
    "\<forall>k. length uf \<le> k \<longrightarrow> k < length uf' \<longrightarrow> uf' ! k = - 1"
    by blast
  have size': "uf' ! k = - int (card {c. rep uf' c = k})" if k: "k < length uf'" "uf' ! k < 0" for k
  proof (cases "k < length uf")
    case True
    have "uf' ! k = uf ! k"
    proof (rule ccontr)
      assume "uf' ! k \<noteq> uf ! k"
      with uf'(5) True have "uf' ! k = int (rep uf c)" by blast
      with k(2) show False by simp
    qed
    with sz[OF True] k(2) uf'(3) show ?thesis by simp
  next
    case False
    with uf'(6) k(1) have "uf' ! k = - 1" by simp
    moreover have "{c. rep uf' c = k} = {k}"
      using singleton_component[OF r, of k] False uf'(3) by simp
    ultimately show ?thesis by simp
  qed
  have "c < length uf'" using uf'(4) by simp
  then have neg: "uf' ! rep uf c < 0" using rep_in_range[OF uf'(2), of c] uf'(3) by simp
  have inv': "uf_inv uf'" using uf'(2) size' by (simp add: uf_inv_def comp_size_def)
  show ?thesis
    by (intro exI[of _ uf'] conjI) (fact uf' inv' neg)+
qed


subsection \<open>Linking two roots\<close>

lemma link_root_within:
  assumes i: "i < length uf" "uf ! i < 0" and j: "j < length uf" "uf ! j < 0" and ij: "i \<noteq> j"
  shows "root_within uf n x = Some r \<Longrightarrow>
         root_within (uf[j := uf ! j + uf ! i, i := int j]) (Suc n) x = Some (if r = i then j else r)"
proof (induction n arbitrary: x)
  case 0
  let ?uf = "uf[j := uf ! j + uf ! i, i := int j]"
  from 0 have x: "x < length uf" "uf ! x < 0" "x = r" by (auto split: if_splits)
  have jroot: "root_within ?uf 0 j = Some j" using i j ij by simp
  show ?case
  proof (cases "x = i")
    case True
    with x i j ij jroot show ?thesis by simp
  next
    case False
    with x i j ij have "?uf ! x < 0" by (cases "x = j") auto
    with x False show ?thesis by simp
  qed
next
  case (Suc n)
  let ?uf = "uf[j := uf ! j + uf ! i, i := int j]"
  from Suc.prems have x: "x < length uf" by (auto split: if_splits)
  show ?case
  proof (cases "uf ! x < 0")
    case True
    from True x Suc.prems have "x = r" by simp
    with True x have "root_within uf n x = Some r" using root_within_of_root[of x uf n] by simp
    from Suc.IH[OF this] show ?thesis by (rule root_within_le) simp
  next
    case False
    with i j have "x \<noteq> i" "x \<noteq> j" by auto
    then have same: "?uf ! x = uf ! x" by simp
    from False x Suc.prems have "root_within uf n (nat (uf ! x)) = Some r" by simp
    from Suc.IH[OF this] False x same show ?thesis by simp
  qed
qed

lemma link_correct:
  assumes inv: "uf_inv uf"
    and i: "i < length uf" "uf ! i < 0" and j: "j < length uf" "uf ! j < 0" and ij: "i \<noteq> j"
  shows "uf_inv (uf[j := uf ! j + uf ! i, i := int j]) \<and>
         (\<forall>x. rep (uf[j := uf ! j + uf ! i, i := int j]) x = (if rep uf x = i then j else rep uf x))"
proof -
  let ?uf = "uf[j := uf ! j + uf ! i, i := int j]"
  from inv have r: "rooted uf"
    and sz: "\<And>r. r < length uf \<Longrightarrow> uf ! r < 0 \<Longrightarrow> uf ! r = - int (card {c. rep uf c = r})"
    by (auto simp add: uf_inv_def comp_size_def)
  have fw: "\<exists>n. root_within ?uf n x = Some (if rep uf x = i then j else rep uf x)"
    if "x < length uf" for x
  proof -
    from rooted_root_within[OF r that] obtain n where "root_within uf n x = Some (rep uf x)" ..
    from link_root_within[OF i j ij this] show ?thesis ..
  qed
  have rooted': "rooted ?uf" by (rule rootedI) (use fw in force)
  have rep': "rep ?uf x = (if rep uf x = i then j else rep uf x)" for x
  proof (cases "x < length uf")
    case True
    from fw[OF True] obtain n where
      "root_within ?uf n x = Some (if rep uf x = i then j else rep uf x)" ..
    then show ?thesis by (rule rep_eqI)
  next
    case False
    then have "rep ?uf x = x" "rep uf x = x" by (simp_all add: rep_out_of_range)
    with False i show ?thesis by auto
  qed
  have size': "?uf ! k = - int (card {c. rep ?uf c = k})" if k: "k < length ?uf" "?uf ! k < 0" for k
  proof -
    from k i j have ki: "k \<noteq> i" by auto
    show ?thesis
    proof (cases "k = j")
      case True
      have "{c. rep ?uf c = j} = {c. rep uf c = i} \<union> {c. rep uf c = j}"
        using ij by (auto simp add: rep')
      moreover have "{c. rep uf c = i} \<inter> {c. rep uf c = j} = {}" using ij by auto
      ultimately have "card {c. rep ?uf c = j} = card {c. rep uf c = i} + card {c. rep uf c = j}"
        using finite_component[OF i(1)] finite_component[OF j(1)] by (simp add: card_Un_disjoint)
      moreover have "?uf ! j = uf ! j + uf ! i" using i j ij by simp
      ultimately show ?thesis using sz[OF i] sz[OF j] True by simp
    next
      case False
      with ki k have "?uf ! k = uf ! k" "k < length uf" by simp_all
      moreover have "{c. rep ?uf c = k} = {c. rep uf c = k}" using False ki by (auto simp add: rep')
      ultimately show ?thesis using sz[of k] k(2) by simp
    qed
  qed
  have "uf_inv ?uf" using rooted' size' by (simp add: uf_inv_def comp_size_def)
  with rep' show ?thesis by blast
qed

subsection \<open>union\<close>

lemma union_uf_same:
  assumes inv: "uf_inv uf" and same: "rep uf a = rep uf b"
  shows "\<exists>uf'. union_uf uf a b = ret (False, uf') \<and> uf_inv uf' \<and> (\<forall>x. rep uf' x = rep uf x)"
proof -
  from ufind_correct[OF inv, of a] obtain uf1 where uf1:
    "ufind uf a = ret (rep uf a, uf1)" "uf_inv uf1" "\<forall>x. rep uf1 x = rep uf x" by blast
  from ufind_correct[OF uf1(2), of b] obtain uf2 where uf2:
    "ufind uf1 b = ret (rep uf1 b, uf2)" "uf_inv uf2" "\<forall>x. rep uf2 x = rep uf1 x" by blast
  have "union_uf uf a b = ret (False, uf2)"
    using uf1(1,3) uf2(1) same by (simp add: union_uf_def)
  with uf2(2,3) uf1(3) show ?thesis by auto
qed

lemma union_uf_merge:
  assumes inv: "uf_inv uf" and diff: "rep uf a \<noteq> rep uf b"
  shows "\<exists>uf'. union_uf uf a b = ret (True, uf') \<and> uf_inv uf' \<and>
           (let i = rep uf a; j = rep uf b;
                winner = (if comp_size uf i \<le> comp_size uf j then j else i);
                loser = (if comp_size uf i \<le> comp_size uf j then i else j)
            in (\<forall>x. rep uf' x = merged_rep uf winner loser x) \<and>
               uf' ! winner = - int (comp_size uf i + comp_size uf j) \<and>
               uf' ! loser = int winner)"
proof -
  let ?i = "rep uf a" and ?j = "rep uf b"
  from ufind_correct[OF inv, of a] obtain uf1 where uf1:
    "ufind uf a = ret (?i, uf1)" "uf_inv uf1" "\<forall>x. rep uf1 x = rep uf x"
    "length uf1 = max (length uf) (Suc a)" by blast
  from ufind_correct[OF uf1(2), of b] obtain uf2 where uf2:
    "ufind uf1 b = ret (rep uf1 b, uf2)" "uf_inv uf2" "\<forall>x. rep uf2 x = rep uf1 x"
    "length uf2 = max (length uf1) (Suc b)" by blast
  have reps: "\<And>x. rep uf2 x = rep uf x" using uf1(3) uf2(3) by simp
  have r2: "rooted uf2" using uf2(2) by (simp add: uf_inv_def comp_size_def)
  have "a < length uf2" "b < length uf2" using uf1(4) uf2(4) by auto
  then have i: "?i < length uf2" "uf2 ! ?i < 0" and j: "?j < length uf2" "uf2 ! ?j < 0"
    using rep_in_range[OF r2, of a] rep_in_range[OF r2, of b] reps by auto
  have szi: "uf2 ! ?i = - int (comp_size uf ?i)" and szj: "uf2 ! ?j = - int (comp_size uf ?j)"
    using uf2(2) i j reps by (simp_all add: uf_inv_def comp_size_def)
  show ?thesis
  proof (cases "uf2 ! ?i \<ge> uf2 ! ?j")
    case True
    let ?uf = "uf2[?j := uf2 ! ?j + uf2 ! ?i, ?i := int ?j]"
    have u: "union_uf uf a b = ret (True, ?uf)"
      using uf1(1,3) uf2(1) diff True by (simp add: union_uf_def)
    from link_correct[OF uf2(2) i j diff]
    have l: "uf_inv ?uf" "\<And>x. rep ?uf x = (if rep uf2 x = ?i then ?j else rep uf2 x)" by auto
    from True szi szj have le: "comp_size uf ?i \<le> comp_size uf ?j" by simp
    have "?uf ! ?j = - int (comp_size uf ?i + comp_size uf ?j)" "?uf ! ?i = int ?j"
      using i j diff szi szj by simp_all
    with u l le reps show ?thesis by (simp add: Let_def merged_rep_def)
  next
    case False
    let ?uf = "uf2[?i := uf2 ! ?i + uf2 ! ?j, ?j := int ?i]"
    have u: "union_uf uf a b = ret (True, ?uf)"
      using uf1(1,3) uf2(1) diff False by (simp add: union_uf_def)
    from diff have diff': "?j \<noteq> ?i" by simp
    from link_correct[OF uf2(2) j i diff']
    have l: "uf_inv ?uf" "\<And>x. rep ?uf x = (if rep uf2 x = ?j then ?i else rep uf2 x)" by auto
    from False szi szj have le: "\<not> comp_size uf ?i \<le> comp_size uf ?j" by simp
    have "?uf ! ?i = - int (comp_size uf ?i + comp_size uf ?j)" "?uf ! ?j = int ?i"
      using i j diff szi szj by simp_all
    with u l le reps show ?thesis by (simp add: Let_def merged_rep_def)
  qed
qed


lemma same_component_rep:
  assumes inv: "uf_inv uf"
  shows "same_component uf a b = ret (rep uf a = rep uf b)"
proof -
  from ufind_correct[OF inv, of a] obtain uf1 where uf1:
    "ufind uf a = ret (rep uf a, uf1)" "uf_inv uf1" "\<forall>x. rep uf1 x = rep uf x" by blast
  from ufind_correct[OF uf1(2), of b] obtain uf2 where uf2:
    "ufind uf1 b = ret (rep uf1 b, uf2)" by blast
  show ?thesis using uf1(1,3) uf2 by (simp add: same_component_def)
qed

text \<open>
  C10. On a list that satisfies the invariant, \<^verbatim>\<open>ufind\<close> returns, and the index it
  returns is a root (a position with a negative entry). The test
  \<^verbatim>\<open>ufind(a) == ufind(b)\<close> has the same outcome after the call as before it, for all
  cells. An entry that the call changes belonged to a non-root cell of the caller's
  component and now holds the root; the entries the call adds hold -1.
\<close>

theorem ufind_preserves_partition:
  assumes "uf_inv uf"
  shows "\<exists>r uf'. ufind uf cell = ret (r, uf') \<and> uf_inv uf' \<and>
           r < length uf' \<and> uf' ! r < 0 \<and>
           (\<forall>a b. same_component uf' a b = same_component uf a b) \<and>
           (\<forall>a b. same_component uf a b = ret (rep uf a = rep uf b)) \<and>
           (\<forall>k<length uf. uf' ! k \<noteq> uf ! k \<longrightarrow>
               0 \<le> uf ! k \<and> uf' ! k = int r \<and> same_component uf k cell = ret True) \<and>
           length uf' = max (length uf) (Suc cell) \<and>
           (\<forall>k. length uf \<le> k \<longrightarrow> k < length uf' \<longrightarrow> uf' ! k = - 1)"
proof -
  from ufind_correct[OF assms, of cell] obtain uf' where uf':
    "ufind uf cell = ret (rep uf cell, uf')" "uf_inv uf'" "\<forall>x. rep uf' x = rep uf x"
    "length uf' = max (length uf) (Suc cell)" "uf' ! rep uf cell < 0"
    "\<forall>k<length uf. uf' ! k \<noteq> uf ! k \<longrightarrow>
        uf' ! k = int (rep uf cell) \<and> rep uf k = rep uf cell \<and> 0 \<le> uf ! k"
    "\<forall>k. length uf \<le> k \<longrightarrow> k < length uf' \<longrightarrow> uf' ! k = - 1"
    by blast
  have r': "rooted uf'" using uf'(2) by (simp add: uf_inv_def comp_size_def)
  have "cell < length uf'" using uf'(4) by simp
  then have a1: "rep uf cell < length uf'" using rep_in_range[OF r', of cell] uf'(3) by simp
  have a2: "\<forall>a b. same_component uf' a b = same_component uf a b"
    using uf'(3) by (simp add: same_component_rep[OF assms] same_component_rep[OF uf'(2)])
  have a3: "\<forall>a b. same_component uf a b = ret (rep uf a = rep uf b)"
    by (simp add: same_component_rep[OF assms])
  have a4: "\<forall>k<length uf. uf' ! k \<noteq> uf ! k \<longrightarrow>
               0 \<le> uf ! k \<and> uf' ! k = int (rep uf cell) \<and> same_component uf k cell = ret True"
    using uf'(6) by (simp add: same_component_rep[OF assms])
  show ?thesis
    by (intro exI[of _ "rep uf cell"] exI[of _ uf'] conjI) (fact uf' a1 a2 a3 a4)+
qed

lemma uf_inv_chain: "uf_inv [1, 2, - 3]"
proof -
  have r0: "rep [1, 2, - 3] 0 = 2" by (rule rep_eqI[of _ 2]) (simp add: numeral_2_eq_2)
  have r1: "rep [1, 2, - 3] (Suc 0) = 2" by (rule rep_eqI[of _ 1]) simp
  have r2: "rep [1, 2, - 3] 2 = 2" by (rule rep_eqI[of _ 0]) simp
  have c3: "c < 3 \<longleftrightarrow> c = 0 \<or> c = Suc 0 \<or> c = 2" for c :: nat by arith
  have "rep [1, 2, - 3] c = 2 \<longleftrightarrow> c < 3" for c
  proof (cases "c < 3")
    case True
    then show ?thesis using r0 r1 r2 by (auto simp add: c3)
  next
    case False
    then show ?thesis using rep_out_of_range[of "[1, 2, - 3]" c] by simp
  qed
  then have "{c. rep [1, 2, - 3] c = 2} = {0, Suc 0, 2}" by (auto simp add: c3)
  then have card: "card {c. rep [1, 2, - 3] c = 2} = 3" by simp
  have w: "root_within [1, 2, - 3] 2 c = Some 2" if "c < 3" for c
    using that by (auto simp add: c3 numeral_2_eq_2)
  have rooted: "rooted [1, 2, - 3]"
  proof (rule rootedI)
    fix c :: nat assume "c < length [1, 2, - 3 :: int]"
    then have "c < 3" by simp
    from w[OF this] show "\<exists>n r. root_within [1, 2, - 3] n c = Some r" by blast
  qed
  have "[1, 2, - 3] ! r = - int (card {c. rep [1, 2, - 3] c = r})"
    if "r < length [1, 2, - 3 :: int]" "[1, 2, - 3] ! r < (0 :: int)" for r
  proof -
    from that(1) have "r = 0 \<or> r = Suc 0 \<or> r = 2" by auto
    with that(2) have "r = 2" by auto
    with card show ?thesis by simp
  qed
  with rooted show ?thesis unfolding uf_inv_def comp_size_def by blast
qed

theorem ufind_preserves_partition_witness:
  "uf_inv [1, 2, - 3] \<and>
   (\<exists>r uf'. ufind [1, 2, - 3] 0 = ret (r, uf') \<and> uf_inv uf' \<and> r < length uf' \<and> uf' ! r < 0)"
  using ufind_preserves_partition[OF uf_inv_chain, of 0] uf_inv_chain by blast


lemma uf_inv_root_size:
  assumes "uf_inv uf" "r < length uf" "uf ! r < 0"
  shows "uf ! r = - int (comp_size uf r) \<and> 1 \<le> comp_size uf r"
proof -
  from assms have "uf ! r = - int (comp_size uf r)" by (simp add: uf_inv_def comp_size_def)
  with assms(3) show ?thesis by simp
qed

text \<open>
  C5. On a list that satisfies the invariant, \<^verbatim>\<open>union\<close> returns False and leaves every
  cell in its component when the two cells already have the same root. Otherwise it
  returns True, the root of the larger component survives (the root of the second
  argument on a tie), every cell of the other component now has the surviving root,
  the surviving root stores the negated sum of the two sizes and the absorbed root
  points at it. In both cases every root of the result stores the negated size of its
  component, which is at least 1.
\<close>

theorem union_uf_by_size:
  assumes "uf_inv uf"
  shows "same_component uf a b = ret (rep uf a = rep uf b) \<and>
    (if rep uf a = rep uf b then
       \<exists>uf'. union_uf uf a b = ret (False, uf') \<and> uf_inv uf' \<and> (\<forall>x. rep uf' x = rep uf x)
     else
       \<exists>uf'. union_uf uf a b = ret (True, uf') \<and> uf_inv uf' \<and>
         (let i = rep uf a; j = rep uf b;
              winner = (if comp_size uf i \<le> comp_size uf j then j else i);
              loser = (if comp_size uf i \<le> comp_size uf j then i else j)
          in (\<forall>x. rep uf' x = merged_rep uf winner loser x) \<and>
             uf' ! winner = - int (comp_size uf i + comp_size uf j) \<and>
             uf' ! loser = int winner)) \<and>
    (\<forall>uf' res. union_uf uf a b = ret (res, uf') \<longrightarrow>
       (\<forall>r<length uf'. uf' ! r < 0 \<longrightarrow> uf' ! r = - int (comp_size uf' r) \<and> 1 \<le> comp_size uf' r))"
proof (intro conjI)
  show "same_component uf a b = ret (rep uf a = rep uf b)"
    by (rule same_component_rep[OF assms])
  show "if rep uf a = rep uf b then
       \<exists>uf'. union_uf uf a b = ret (False, uf') \<and> uf_inv uf' \<and> (\<forall>x. rep uf' x = rep uf x)
     else
       \<exists>uf'. union_uf uf a b = ret (True, uf') \<and> uf_inv uf' \<and>
         (let i = rep uf a; j = rep uf b;
              winner = (if comp_size uf i \<le> comp_size uf j then j else i);
              loser = (if comp_size uf i \<le> comp_size uf j then i else j)
          in (\<forall>x. rep uf' x = merged_rep uf winner loser x) \<and>
             uf' ! winner = - int (comp_size uf i + comp_size uf j) \<and>
             uf' ! loser = int winner)"
  proof (cases "rep uf a = rep uf b")
    case True
    with union_uf_same[OF assms True] show ?thesis by simp
  next
    case False
    with union_uf_merge[OF assms False] show ?thesis by simp
  qed
  show "\<forall>uf' res. union_uf uf a b = ret (res, uf') \<longrightarrow>
       (\<forall>r<length uf'. uf' ! r < 0 \<longrightarrow> uf' ! r = - int (comp_size uf' r) \<and> 1 \<le> comp_size uf' r)"
  proof (intro allI impI)
    fix uf' res r
    assume u: "union_uf uf a b = ret (res, uf')" and r: "r < length uf'" "uf' ! r < 0"
    have "uf_inv uf'"
    proof (cases "rep uf a = rep uf b")
      case True
      from union_uf_same[OF assms True] u show ?thesis by auto
    next
      case False
      from union_uf_merge[OF assms False] u show ?thesis by auto
    qed
    then show "uf' ! r = - int (comp_size uf' r) \<and> 1 \<le> comp_size uf' r"
      using r by (rule uf_inv_root_size)
  qed
qed

theorem union_uf_by_size_witness:
  "uf_inv [1, 2, - 3] \<and>
   (\<exists>uf'. union_uf [1, 2, - 3] 0 4 = ret (True, uf') \<and> uf_inv uf') \<and>
   (\<exists>uf'. union_uf [1, 2, - 3] 0 1 = ret (False, uf') \<and> uf_inv uf')"
proof -
  have r0: "rep [1, 2, - 3] 0 = 2" by (rule rep_eqI[of _ 2]) (simp add: numeral_2_eq_2)
  have r1: "rep [1, 2, - 3] 1 = 2" by (rule rep_eqI[of _ 1]) simp
  have r4: "rep [1, 2, - 3] 4 = 4" by (rule rep_out_of_range) simp
  from union_uf_by_size[OF uf_inv_chain, of 0 4] r0 r4
  have "\<exists>uf'. union_uf [1, 2, - 3] 0 4 = ret (True, uf') \<and> uf_inv uf'" by auto
  moreover from union_uf_by_size[OF uf_inv_chain, of 0 1] r0 r1
  have "\<exists>uf'. union_uf [1, 2, - 3] 0 1 = ret (False, uf') \<and> uf_inv uf'" by auto
  ultimately show ?thesis using uf_inv_chain by blast
qed

subsection \<open>Loops over a fixed range\<close>

lemma for_each_append:
  "for_each body (xs @ ys) st = and_then (for_each body xs st) (for_each body ys)"
proof (induction xs arbitrary: st)
  case Nil
  show ?case by simp
next
  case (Cons i xs)
  show ?case
  proof (cases "body i st")
    case None
    then show ?thesis by simp
  next
    case (Some v)
    then show ?thesis
    proof (cases v)
      case (Inl e)
      with Some show ?thesis by (simp add: and_then_def)
    next
      case (Inr st')
      with Some Cons.IH[of st'] show ?thesis by (simp add: and_then_def)
    qed
  qed
qed

lemma for_each_invariant:
  assumes body: "\<And>i st. i \<in> set xs \<Longrightarrow> I st \<Longrightarrow> \<exists>st'. body i st = ret st' \<and> I st'"
    and start: "I st"
  shows "\<exists>st'. for_each body xs st = ret st' \<and> I st'"
  using assms
proof (induction xs arbitrary: st)
  case Nil
  then show ?case by simp
next
  case (Cons i xs)
  from Cons.prems(1)[of i st] Cons.prems(2) obtain st1 where st1: "body i st = ret st1" "I st1"
    by auto
  have "\<exists>st'. for_each body xs st1 = ret st' \<and> I st'"
    by (rule Cons.IH) (use Cons.prems(1) st1(2) in auto)
  with st1(1) show ?case by simp
qed

subsection \<open>Random draws\<close>

lemma rand_int_ret: "0 < n \<Longrightarrow> rand_int g n = ret (g 0 mod n, advance g)"
  by (simp add: rand_int_def)

lemma push_rand_ret:
  "push_rand g arr item =
     ret (take (g 0 mod (length arr + 1)) arr @ item # drop (g 0 mod (length arr + 1)) arr, advance g)"
  by (simp add: push_rand_def rand_int_def)

lemma random_random_range:
  "0 \<le> fst (random_random g) \<and> fst (random_random g) < 1"
proof -
  have "g 0 mod 2 ^ 53 < (2 ^ 53 :: nat)" by simp
  then have "real (g 0 mod 2 ^ 53) < real (2 ^ 53 :: nat)" by (simp only: of_nat_less_iff)
  then show ?thesis by (simp add: random_random_def)
qed

subsection \<open>Wall lookup\<close>

lemma wall_index_less:
  assumes "x < W" "y < H"
  shows "wall_index W x y d < 2 * W * H"
proof -
  from assms have "y * W + x < (y + 1) * W" by simp
  also from assms have "(y + 1) * W \<le> H * W" by (intro mult_le_mono1) simp
  finally have "y * W + x < H * W" .
  then have "(y * W + x) * 2 + 1 < 2 * W * H" by (simp add: algebra_simps)
  then show ?thesis by (simp add: wall_index_def)
qed

lemma wall_index_cover:
  assumes "i < 2 * W * H"
  shows "\<exists>x<W. \<exists>y<H. \<exists>d. i = wall_index W x y d"
proof -
  from assms have W: "0 < W" by (cases W) auto
  let ?c = "i div 2"
  from assms have c: "?c < H * W" by (simp add: less_mult_imp_div_less algebra_simps)
  have "?c mod W < W" using W by simp
  moreover have "?c div W < H" using c by (simp add: less_mult_imp_div_less)
  moreover have "i = wall_index W (?c mod W) (?c div W) (even i)"
    unfolding wall_index_def by (cases "even i") (auto elim: oddE)
  ultimately show ?thesis by blast
qed

lemma get_wall_ret:
  assumes "length ws = 2 * W * H"
  shows "get_wall W H ws x y d =
     ret (if 0 \<le> x \<and> x < int W \<and> 0 \<le> y \<and> y < int H
          then (case ws ! wall_index W (nat x) (nat y) d of None \<Rightarrow> None
                | Some w \<Rightarrow> Some (wall_index W (nat x) (nat y) d))
          else None)"
proof (cases "0 \<le> x \<and> x < int W \<and> 0 \<le> y \<and> y < int H")
  case True
  then have "nat x < W" "nat y < H" by auto
  from wall_index_less[OF this, of d] assms have lt: "wall_index W (nat x) (nat y) d < length ws"
    by simp
  have idx: "(nat y * W + nat x) * 2 + (if d then 0 else 1) = wall_index W (nat x) (nat y) d"
    by (simp add: wall_index_def)
  show ?thesis unfolding get_wall_def Let_def idx using True lt by simp
next
  case False
  then show ?thesis by (auto simp add: get_wall_def)
qed

lemma get_wall_Some:
  assumes "length ws = 2 * W * H" "get_wall W H ws x y d = ret (Some n)"
  shows "n < length ws \<and> (\<exists>w. ws ! n = Some w)"
proof -
  from assms have eq: "(if 0 \<le> x \<and> x < int W \<and> 0 \<le> y \<and> y < int H
          then (case ws ! wall_index W (nat x) (nat y) d of None \<Rightarrow> None
                | Some w \<Rightarrow> Some (wall_index W (nat x) (nat y) d))
          else None) = Some n" by (simp add: get_wall_ret)
  then have inr: "0 \<le> x \<and> x < int W \<and> 0 \<le> y \<and> y < int H" by (auto split: if_splits)
  then have "nat x < W" "nat y < H" by auto
  from wall_index_less[OF this, of d] eq inr assms(1) show ?thesis
    by (auto split: option.splits)
qed

lemma get_neighbour_ret:
  assumes "length ws = 2 * W * H"
  shows "\<exists>r. get_neighbour W H ws w n = ret r \<and>
             (\<forall>k. r = Some k \<longrightarrow> k < length ws \<and> (\<exists>v. ws ! k = Some v))"
proof (cases "n < length (if dr w then HORIZONTAL_OFFSETS else VERTICAL_OFFSETS)")
  case True
  obtain dx dy h where o: "(if dr w then HORIZONTAL_OFFSETS else VERTICAL_OFFSETS) ! n = (dx, dy, h)"
    by (cases "(if dr w then HORIZONTAL_OFFSETS else VERTICAL_OFFSETS) ! n") auto
  have g: "get_neighbour W H ws w n = get_wall W H ws (int (wall_x w) + dx) (int (wall_y w) + dy) h"
    using True o by (simp add: get_neighbour_def Let_def)
  obtain r where r: "get_wall W H ws (int (wall_x w) + dx) (int (wall_y w) + dy) h = ret r"
    using get_wall_ret[OF assms] by blast
  with get_wall_Some[OF assms] g show ?thesis by auto
next
  case False
  then show ?thesis by (simp add: get_neighbour_def Let_def)
qed

lemma end_type_from_ret:
  assumes "length ws = 2 * W * H"
  shows "\<exists>t. end_type_from W H ws w k = ret t \<and> t \<le> 2"
proof -
  obtain a where a: "get_neighbour W H ws w k = ret a" using get_neighbour_ret[OF assms] by blast
  obtain b where b: "get_neighbour W H ws w (k + 1) = ret b" using get_neighbour_ret[OF assms] by blast
  obtain c where c: "get_neighbour W H ws w (k + 2) = ret c" using get_neighbour_ret[OF assms] by blast
  show ?thesis using a b c by (simp add: end_type_from_def get_wall_end_type_le_2)
qed


subsection \<open>update_wall_type\<close>

lemma update_wall_type_ret:
  assumes len: "length (walls_by_index s) = 2 * W * H"
    and q9: "9 \<le> length (wall_queues s)"
    and w: "deref (walls_by_index s) r = Some w"
  shows "\<exists>t1 t2. end_type_from W H (walls_by_index s) w 0 = ret t1 \<and>
           end_type_from W H (walls_by_index s) w 3 = ret t2 \<and> t1 \<le> 2 \<and> t2 \<le> 2 \<and>
           update_wall_type W H r (s, g) =
             ret (if wall_typ w < t1 * 3 + t2 then
                    (s\<lparr>walls_by_index := (walls_by_index s)[r := Some (w\<lparr>wall_typ := t1 * 3 + t2\<rparr>)],
                       wall_queues := (wall_queues s)[t1 * 3 + t2 :=
                         take (g 0 mod (length (wall_queues s ! (t1 * 3 + t2)) + 1)) (wall_queues s ! (t1 * 3 + t2))
                         @ r # drop (g 0 mod (length (wall_queues s ! (t1 * 3 + t2)) + 1)) (wall_queues s ! (t1 * 3 + t2))]\<rparr>,
                     advance g)
                  else (s, g))"
proof -
  obtain t1 where t1: "end_type_from W H (walls_by_index s) w 0 = ret t1" "t1 \<le> 2"
    using end_type_from_ret[OF len] by blast
  obtain t2 where t2: "end_type_from W H (walls_by_index s) w 3 = ret t2" "t2 \<le> 2"
    using end_type_from_ret[OF len] by blast
  from t1(2) t2(2) have "t1 * 3 + t2 \<le> 8" by simp
  with q9 have lt: "t1 * 3 + t2 < length (wall_queues s)" by simp
  show ?thesis
    by (intro exI[of _ t1] exI[of _ t2] conjI t1 t2)
       (simp add: update_wall_type_def w t1(1) t2(1) Let_def lt push_rand_ret)
qed

lemma sum_list_length_update:
  assumes "k < length qs" "length q = Suc (length (qs ! k))"
  shows "sum_list (map length (qs[k := q])) = Suc (sum_list (map length qs))"
proof -
  have "sum_list (map length (qs[k := q])) = sum_list ((map length qs)[k := length q])"
    by (simp add: map_update)
  also have "\<dots> = sum_list (map length qs) + length q - (map length qs) ! k"
    using assms(1) by (simp add: sum_list_update)
  also have "\<dots> = Suc (sum_list (map length qs))" using assms by simp
  finally show ?thesis .
qed

lemma sum_list_slack_update:
  assumes "r < length ws" "ws ! r = Some w" "wall_typ w < t" "t \<le> 8"
  shows "Suc (sum_list (map (\<lambda>w. case w of None \<Rightarrow> 0 | Some v \<Rightarrow> 8 - wall_typ v)
                 (ws[r := Some (w\<lparr>wall_typ := t\<rparr>)])))
         \<le> sum_list (map (\<lambda>w. case w of None \<Rightarrow> 0 | Some v \<Rightarrow> 8 - wall_typ v) ws)"
proof -
  let ?f = "\<lambda>w. case w of None \<Rightarrow> (0::nat) | Some v \<Rightarrow> 8 - wall_typ v"
  have "sum_list (map ?f (ws[r := Some (w\<lparr>wall_typ := t\<rparr>)])) = sum_list ((map ?f ws)[r := 8 - t])"
    by (simp add: map_update)
  also have "\<dots> = sum_list (map ?f ws) + (8 - t) - (map ?f ws) ! r"
    using assms(1) by (simp add: sum_list_update)
  also have "\<dots> = sum_list (map ?f ws) + (8 - t) - (8 - wall_typ w)"
    using assms(1,2) by simp
  finally have eq: "sum_list (map ?f (ws[r := Some (w\<lparr>wall_typ := t\<rparr>)])) =
      sum_list (map ?f ws) + (8 - t) - (8 - wall_typ w)" .
  have "8 - wall_typ w \<le> sum_list (map ?f ws)"
  proof -
    have "?f (ws ! r) \<in> set (map ?f ws)" using assms(1) by (auto intro!: imageI nth_mem)
    then have "?f (ws ! r) \<le> sum_list (map ?f ws)" by (rule member_le_sum_list) simp_all
    with assms(2) show ?thesis by simp
  qed
  with eq assms(3,4) show ?thesis by simp
qed

lemma grows_refl: "grows s s"
  by (auto simp add: grows_def split: option.splits)

lemma grows_wall:
  assumes "grows s s'" "i < length (walls_by_index s)" "walls_by_index s ! i = Some w"
  shows "\<exists>w'. walls_by_index s' ! i = Some w' \<and> wall_x w' = wall_x w \<and> wall_y w' = wall_y w \<and>
                  dr w' = dr w \<and> clr w' = clr w \<and> wall_typ w \<le> wall_typ w' \<and>
                  (wall_typ w' \<noteq> wall_typ w \<longrightarrow>
                     wall_typ w' < length (wall_queues s') \<and> i \<in> set (wall_queues s' ! wall_typ w'))"
proof -
  from assms(1,2) have "case walls_by_index s ! i of
          None \<Rightarrow> walls_by_index s' ! i = None
        | Some w \<Rightarrow>
            (\<exists>w'. walls_by_index s' ! i = Some w' \<and> wall_x w' = wall_x w \<and> wall_y w' = wall_y w \<and>
                  dr w' = dr w \<and> clr w' = clr w \<and> wall_typ w \<le> wall_typ w' \<and>
                  (wall_typ w' \<noteq> wall_typ w \<longrightarrow>
                     wall_typ w' < length (wall_queues s') \<and> i \<in> set (wall_queues s' ! wall_typ w')))"
    by (simp add: grows_def)
  with assms(3) show ?thesis by simp
qed

lemma grows_no_wall:
  assumes "grows s s'" "i < length (walls_by_index s)" "walls_by_index s ! i = None"
  shows "walls_by_index s' ! i = None"
proof -
  from assms(1,2) have "case walls_by_index s ! i of
          None \<Rightarrow> walls_by_index s' ! i = None
        | Some w \<Rightarrow>
            (\<exists>w'. walls_by_index s' ! i = Some w' \<and> wall_x w' = wall_x w \<and> wall_y w' = wall_y w \<and>
                  dr w' = dr w \<and> clr w' = clr w \<and> wall_typ w \<le> wall_typ w' \<and>
                  (wall_typ w' \<noteq> wall_typ w \<longrightarrow>
                     wall_typ w' < length (wall_queues s') \<and> i \<in> set (wall_queues s' ! wall_typ w')))"
    by (simp add: grows_def)
  with assms(3) show ?thesis by simp
qed

lemma grows_trans:
  assumes a: "grows s1 s2" and b: "grows s2 s3"
  shows "grows s1 s3"
  unfolding grows_def
proof (intro conjI allI impI)
  show "union_find s3 = union_find s1" "start_x s3 = start_x s1" "finish_x s3 = finish_x s1"
    "length (wall_queues s3) = length (wall_queues s1)"
    "length (walls_by_index s3) = length (walls_by_index s1)" "mu s3 \<le> mu s1"
    using a b by (simp_all add: grows_def)
next
  fix k assume "k < length (wall_queues s1)"
  then have "set (wall_queues s1 ! k) \<subseteq> set (wall_queues s2 ! k)"
    "set (wall_queues s2 ! k) \<subseteq> set (wall_queues s3 ! k)"
    using a b by (simp_all add: grows_def)
  then show "set (wall_queues s1 ! k) \<subseteq> set (wall_queues s3 ! k)" by blast
next
  fix i assume i: "i < length (walls_by_index s1)"
  then have i2: "i < length (walls_by_index s2)" using a by (simp add: grows_def)
  have qlen: "length (wall_queues s3) = length (wall_queues s2)" using b by (simp add: grows_def)
  have qsub: "\<And>k. k < length (wall_queues s2) \<Longrightarrow> set (wall_queues s2 ! k) \<subseteq> set (wall_queues s3 ! k)"
    using b by (simp add: grows_def)
  show "case walls_by_index s1 ! i of
          None \<Rightarrow> walls_by_index s3 ! i = None
        | Some w \<Rightarrow>
            (\<exists>w'. walls_by_index s3 ! i = Some w' \<and> wall_x w' = wall_x w \<and> wall_y w' = wall_y w \<and>
                  dr w' = dr w \<and> clr w' = clr w \<and> wall_typ w \<le> wall_typ w' \<and>
                  (wall_typ w' \<noteq> wall_typ w \<longrightarrow>
                     wall_typ w' < length (wall_queues s3) \<and> i \<in> set (wall_queues s3 ! wall_typ w')))"
  proof (cases "walls_by_index s1 ! i")
    case None
    from grows_no_wall[OF a i None] have "walls_by_index s2 ! i = None" .
    from grows_no_wall[OF b i2 this] have "walls_by_index s3 ! i = None" .
    with None show ?thesis by simp
  next
    case (Some w)
    from grows_wall[OF a i Some] obtain w2 where w2: "walls_by_index s2 ! i = Some w2" "wall_x w2 = wall_x w"
      "wall_y w2 = wall_y w" "dr w2 = dr w" "clr w2 = clr w" "wall_typ w \<le> wall_typ w2"
      "wall_typ w2 \<noteq> wall_typ w \<longrightarrow>
         wall_typ w2 < length (wall_queues s2) \<and> i \<in> set (wall_queues s2 ! wall_typ w2)"
      by blast
    from grows_wall[OF b i2 w2(1)] obtain w3 where w3: "walls_by_index s3 ! i = Some w3" "wall_x w3 = wall_x w2"
      "wall_y w3 = wall_y w2" "dr w3 = dr w2" "clr w3 = clr w2" "wall_typ w2 \<le> wall_typ w3"
      "wall_typ w3 \<noteq> wall_typ w2 \<longrightarrow>
         wall_typ w3 < length (wall_queues s3) \<and> i \<in> set (wall_queues s3 ! wall_typ w3)"
      by blast
    have "wall_typ w3 < length (wall_queues s3) \<and> i \<in> set (wall_queues s3 ! wall_typ w3)"
      if ne: "wall_typ w3 \<noteq> wall_typ w"
    proof (cases "wall_typ w3 = wall_typ w2")
      case True
      with ne w2(7) have "wall_typ w2 < length (wall_queues s2)" "i \<in> set (wall_queues s2 ! wall_typ w2)"
        by auto
      with qsub[of "wall_typ w2"] qlen True show ?thesis by auto
    next
      case False
      with w3(7) show ?thesis by simp
    qed
    with Some w2 w3 show ?thesis by simp
  qed
qed

lemma update_wall_type_grows:
  assumes len: "length (walls_by_index s) = 2 * W * H"
    and q9: "9 \<le> length (wall_queues s)"
    and w: "deref (walls_by_index s) r = Some w"
  shows "\<exists>s' g'. update_wall_type W H r (s, g) = ret (s', g') \<and> grows s s'"
proof -
  let ?ws = "walls_by_index s" and ?qs = "wall_queues s"
  from update_wall_type_ret[OF len q9 w, of g] obtain t1 t2 where
    t: "t1 \<le> 2" "t2 \<le> 2" and
    u: "update_wall_type W H r (s, g) =
             ret (if wall_typ w < t1 * 3 + t2 then
                    (s\<lparr>walls_by_index := ?ws[r := Some (w\<lparr>wall_typ := t1 * 3 + t2\<rparr>)],
                       wall_queues := ?qs[t1 * 3 + t2 :=
                         take (g 0 mod (length (?qs ! (t1 * 3 + t2)) + 1)) (?qs ! (t1 * 3 + t2))
                         @ r # drop (g 0 mod (length (?qs ! (t1 * 3 + t2)) + 1)) (?qs ! (t1 * 3 + t2))]\<rparr>,
                     advance g)
                  else (s, g))" by blast
  show ?thesis
  proof (cases "wall_typ w < t1 * 3 + t2")
    case False
    with u grows_refl show ?thesis by auto
  next
    case True
    let ?t = "t1 * 3 + t2"
    let ?k = "g 0 mod (length (?qs ! ?t) + 1)"
    let ?q = "take ?k (?qs ! ?t) @ r # drop ?k (?qs ! ?t)"
    let ?s = "s\<lparr>walls_by_index := ?ws[r := Some (w\<lparr>wall_typ := ?t\<rparr>)], wall_queues := ?qs[?t := ?q]\<rparr>"
    from t have t8: "?t \<le> 8" by simp
    with q9 have tq: "?t < length ?qs" by simp
    from w have r: "r < length ?ws" "?ws ! r = Some w" by (auto simp add: deref_def split: if_splits)
    have k: "?k \<le> length (?qs ! ?t)" using mod_less_divisor[of "length (?qs ! ?t) + 1" "g 0"] by simp
    have setq: "set ?q = insert r (set (?qs ! ?t))"
    proof -
      have "set (take ?k (?qs ! ?t)) \<union> set (drop ?k (?qs ! ?t)) = set (?qs ! ?t)"
        by (metis append_take_drop_id set_append)
      then show ?thesis by auto
    qed
    have lenq: "length ?q = Suc (length (?qs ! ?t))" using k by simp
    have m1: "sum_list (map length (?qs[?t := ?q])) = Suc (sum_list (map length ?qs))"
      by (rule sum_list_length_update[OF tq lenq])
    have m2: "Suc (sum_list (map (\<lambda>w. case w of None \<Rightarrow> 0 | Some v \<Rightarrow> 8 - wall_typ v)
                 (?ws[r := Some (w\<lparr>wall_typ := ?t\<rparr>)])))
         \<le> sum_list (map (\<lambda>w. case w of None \<Rightarrow> 0 | Some v \<Rightarrow> 8 - wall_typ v) ?ws)"
      by (rule sum_list_slack_update[OF r True t8])
    have mu: "mu ?s \<le> mu s" using m1 m2 by (simp add: mu_def)
    have queues: "set (?qs ! k) \<subseteq> set (wall_queues ?s ! k)" if "k < length ?qs" for k
      using that setq by (cases "k = ?t") auto
    have walls: "case ?ws ! i of
          None \<Rightarrow> walls_by_index ?s ! i = None
        | Some v \<Rightarrow>
            (\<exists>w'. walls_by_index ?s ! i = Some w' \<and> wall_x w' = wall_x v \<and> wall_y w' = wall_y v \<and>
                  dr w' = dr v \<and> clr w' = clr v \<and> wall_typ v \<le> wall_typ w' \<and>
                  (wall_typ w' \<noteq> wall_typ v \<longrightarrow>
                     wall_typ w' < length (wall_queues ?s) \<and> i \<in> set (wall_queues ?s ! wall_typ w')))"
      if "i < length ?ws" for i
    proof (cases "i = r")
      case True
      with r \<open>wall_typ w < ?t\<close> tq setq show ?thesis by simp
    next
      case False
      then show ?thesis by (simp split: option.splits)
    qed
    have "grows s ?s" unfolding grows_def using mu queues walls by simp
    with u True show ?thesis by auto
  qed
qed

subsection \<open>The outcome of union in one statement\<close>

lemma union_uf_cases:
  assumes inv: "uf_inv uf"
  shows "\<exists>res uf' winner loser.
           union_uf uf a b = ret (res, uf') \<and> uf_inv uf' \<and>
           length uf' = max (max (length uf) (Suc a)) (Suc b) \<and>
           (res \<longleftrightarrow> rep uf a \<noteq> rep uf b) \<and>
           {winner, loser} = {rep uf a, rep uf b} \<and>
           (\<forall>x. rep uf' x = (if rep uf x = loser then winner else rep uf x))"
proof -
  let ?i = "rep uf a" and ?j = "rep uf b"
  from ufind_correct[OF inv, of a] obtain uf1 where uf1:
    "ufind uf a = ret (?i, uf1)" "uf_inv uf1" "\<forall>x. rep uf1 x = rep uf x"
    "length uf1 = max (length uf) (Suc a)" by blast
  from ufind_correct[OF uf1(2), of b] obtain uf2 where uf2:
    "ufind uf1 b = ret (rep uf1 b, uf2)" "uf_inv uf2" "\<forall>x. rep uf2 x = rep uf1 x"
    "length uf2 = max (length uf1) (Suc b)" by blast
  have reps: "\<And>x. rep uf2 x = rep uf x" using uf1(3) uf2(3) by simp
  have len2: "length uf2 = max (max (length uf) (Suc a)) (Suc b)" using uf1(4) uf2(4) by simp
  have r2: "rooted uf2" using uf2(2) by (simp add: uf_inv_def)
  have "a < length uf2" "b < length uf2" using uf1(4) uf2(4) by auto
  then have i: "?i < length uf2" "uf2 ! ?i < 0" and j: "?j < length uf2" "uf2 ! ?j < 0"
    using rep_in_range[OF r2, of a] rep_in_range[OF r2, of b] reps by auto
  show ?thesis
  proof (cases "?i = ?j")
    case True
    have "union_uf uf a b = ret (False, uf2)"
      using uf1(1,3) uf2(1) True by (simp add: union_uf_def)
    with uf2(2) len2 reps True show ?thesis
      by (intro exI[of _ False] exI[of _ uf2] exI[of _ ?i]) auto
  next
    case diff: False
    show ?thesis
    proof (cases "uf2 ! ?i \<ge> uf2 ! ?j")
      case True
      let ?uf = "uf2[?j := uf2 ! ?j + uf2 ! ?i, ?i := int ?j]"
      have u: "union_uf uf a b = ret (True, ?uf)"
        using uf1(1,3) uf2(1) diff True by (simp add: union_uf_def)
      from link_correct[OF uf2(2) i j diff]
      have l: "uf_inv ?uf" "\<And>x. rep ?uf x = (if rep uf2 x = ?i then ?j else rep uf2 x)" by auto
      have len: "length ?uf = max (max (length uf) (Suc a)) (Suc b)" using len2 by simp
      show ?thesis
        by (intro exI[of _ True] exI[of _ ?uf] exI[of _ ?j] exI[of _ ?i])
           (use u l len diff reps in auto)
    next
      case False
      let ?uf = "uf2[?i := uf2 ! ?i + uf2 ! ?j, ?j := int ?i]"
      have u: "union_uf uf a b = ret (True, ?uf)"
        using uf1(1,3) uf2(1) diff False by (simp add: union_uf_def)
      from diff have diff': "?j \<noteq> ?i" by simp
      from link_correct[OF uf2(2) j i diff']
      have l: "uf_inv ?uf" "\<And>x. rep ?uf x = (if rep uf2 x = ?j then ?i else rep uf2 x)" by auto
      have len: "length ?uf = max (max (length uf) (Suc a)) (Suc b)" using len2 by simp
      show ?thesis
        by (intro exI[of _ True] exI[of _ ?uf] exI[of _ ?i] exI[of _ ?j])
           (use u l len diff reps in auto)
    qed
  qed
qed

subsection \<open>Relations between generator states\<close>

lemma advances_refl: "advances s s"
  by (auto simp add: advances_def split: option.splits)

lemma advances_wall:
  assumes "advances s s'" "i < length (walls_by_index s)" "walls_by_index s ! i = Some w"
  shows "\<exists>w'. walls_by_index s' ! i = Some w' \<and> wall_x w' = wall_x w \<and> wall_y w' = wall_y w \<and>
               dr w' = dr w \<and> (clr w \<longrightarrow> clr w') \<and> wall_typ w \<le> wall_typ w'"
proof -
  from assms(1,2) have "case walls_by_index s ! i of
          None \<Rightarrow> walls_by_index s' ! i = None
        | Some w \<Rightarrow>
            (\<exists>w'. walls_by_index s' ! i = Some w' \<and> wall_x w' = wall_x w \<and> wall_y w' = wall_y w \<and>
                  dr w' = dr w \<and> (clr w \<longrightarrow> clr w') \<and> wall_typ w \<le> wall_typ w')"
    by (simp add: advances_def)
  with assms(3) show ?thesis by simp
qed

lemma advances_no_wall:
  assumes "advances s s'" "i < length (walls_by_index s)" "walls_by_index s ! i = None"
  shows "walls_by_index s' ! i = None"
proof -
  from assms(1,2) have "case walls_by_index s ! i of
          None \<Rightarrow> walls_by_index s' ! i = None
        | Some w \<Rightarrow>
            (\<exists>w'. walls_by_index s' ! i = Some w' \<and> wall_x w' = wall_x w \<and> wall_y w' = wall_y w \<and>
                  dr w' = dr w \<and> (clr w \<longrightarrow> clr w') \<and> wall_typ w \<le> wall_typ w')"
    by (simp add: advances_def)
  with assms(3) show ?thesis by simp
qed

lemma advancesI:
  assumes "length (wall_queues s') = length (wall_queues s)"
    and "length (walls_by_index s') = length (walls_by_index s)"
    and "\<And>i. i < length (walls_by_index s) \<Longrightarrow> walls_by_index s ! i = None \<Longrightarrow>
           walls_by_index s' ! i = None"
    and "\<And>i w. i < length (walls_by_index s) \<Longrightarrow> walls_by_index s ! i = Some w \<Longrightarrow>
           \<exists>w'. walls_by_index s' ! i = Some w' \<and> wall_x w' = wall_x w \<and> wall_y w' = wall_y w \<and>
               dr w' = dr w \<and> (clr w \<longrightarrow> clr w') \<and> wall_typ w \<le> wall_typ w'"
  shows "advances s s'"
  unfolding advances_def
proof (intro conjI allI impI)
  fix i assume i: "i < length (walls_by_index s)"
  show "case walls_by_index s ! i of
          None \<Rightarrow> walls_by_index s' ! i = None
        | Some w \<Rightarrow>
            (\<exists>w'. walls_by_index s' ! i = Some w' \<and> wall_x w' = wall_x w \<and> wall_y w' = wall_y w \<and>
                  dr w' = dr w \<and> (clr w \<longrightarrow> clr w') \<and> wall_typ w \<le> wall_typ w')"
  proof (cases "walls_by_index s ! i")
    case None
    with assms(3)[OF i] show ?thesis by simp
  next
    case (Some w)
    with assms(4)[OF i Some] show ?thesis by simp
  qed
qed (use assms(1,2) in auto)

lemma advances_trans:
  assumes a: "advances s1 s2" and b: "advances s2 s3"
  shows "advances s1 s3"
proof (rule advancesI)
  show "length (wall_queues s3) = length (wall_queues s1)"
    "length (walls_by_index s3) = length (walls_by_index s1)"
    using a b by (simp_all add: advances_def)
next
  fix i assume i: "i < length (walls_by_index s1)" and n: "walls_by_index s1 ! i = None"
  from a i have i2: "i < length (walls_by_index s2)" by (simp add: advances_def)
  from advances_no_wall[OF b i2 advances_no_wall[OF a i n]]
  show "walls_by_index s3 ! i = None" .
next
  fix i w assume i: "i < length (walls_by_index s1)" and w: "walls_by_index s1 ! i = Some w"
  from a i have i2: "i < length (walls_by_index s2)" by (simp add: advances_def)
  from advances_wall[OF a i w] obtain w2 where w2: "walls_by_index s2 ! i = Some w2"
    "wall_x w2 = wall_x w" "wall_y w2 = wall_y w" "dr w2 = dr w" "clr w \<longrightarrow> clr w2"
    "wall_typ w \<le> wall_typ w2" by blast
  from advances_wall[OF b i2 w2(1)] obtain w3 where w3: "walls_by_index s3 ! i = Some w3"
    "wall_x w3 = wall_x w2" "wall_y w3 = wall_y w2" "dr w3 = dr w2" "clr w2 \<longrightarrow> clr w3"
    "wall_typ w2 \<le> wall_typ w3" by blast
  from w2 w3 show "\<exists>w'. walls_by_index s3 ! i = Some w' \<and> wall_x w' = wall_x w \<and> wall_y w' = wall_y w \<and>
               dr w' = dr w \<and> (clr w \<longrightarrow> clr w') \<and> wall_typ w \<le> wall_typ w'" by auto
qed

lemma grows_advances:
  assumes g: "grows s s'"
  shows "advances s s'"
proof (rule advancesI)
  show "length (wall_queues s') = length (wall_queues s)"
    "length (walls_by_index s') = length (walls_by_index s)"
    using g by (simp_all add: grows_def)
next
  fix i assume "i < length (walls_by_index s)" "walls_by_index s ! i = None"
  then show "walls_by_index s' ! i = None" by (rule grows_no_wall[OF g])
next
  fix i w assume "i < length (walls_by_index s)" "walls_by_index s ! i = Some w"
  from grows_wall[OF g this]
  show "\<exists>w'. walls_by_index s' ! i = Some w' \<and> wall_x w' = wall_x w \<and> wall_y w' = wall_y w \<and>
               dr w' = dr w \<and> (clr w \<longrightarrow> clr w') \<and> wall_typ w \<le> wall_typ w'" by auto
qed

subsection \<open>Counting removed walls\<close>

lemma removed_count_eq:
  assumes len: "length ws' = length ws"
    and same: "\<And>i. i < length ws \<Longrightarrow> removed (ws' ! i) = removed (ws ! i)"
  shows "length (filter removed ws') = length (filter removed ws)"
proof -
  have m: "map removed ws' = map removed ws"
    by (rule nth_equalityI) (use len same in auto)
  have f: "length (filter removed xs) = length (filter (\<lambda>b. b) (map removed xs))"
    for xs :: "wall option list"
    by (induction xs) auto
  show ?thesis unfolding f m ..
qed

lemma removed_count_open:
  assumes r: "r < length ws" and w: "ws ! r = Some w" and closed: "\<not> clr w"
  shows "length (filter removed (ws[r := Some (w\<lparr>clr := True\<rparr>)])) = Suc (length (filter removed ws))"
proof -
  have a: "ws = take r ws @ Some w # drop (Suc r) ws"
    using id_take_nth_drop[OF r] w by simp
  have b: "ws[r := Some (w\<lparr>clr := True\<rparr>)] = take r ws @ Some (w\<lparr>clr := True\<rparr>) # drop (Suc r) ws"
    using upd_conv_take_nth_drop[OF r] by simp
  have "length (filter removed (take r ws @ Some (w\<lparr>clr := True\<rparr>) # drop (Suc r) ws)) =
        Suc (length (filter removed (take r ws @ Some w # drop (Suc r) ws)))"
    using closed by (simp add: removed_def)
  with a b show ?thesis by simp
qed

subsection \<open>The invariant survives re-classification\<close>

lemma walls_wf_advances:
  assumes wf: "walls_wf W H (walls_by_index s)" and a: "advances s s'"
  shows "walls_wf W H (walls_by_index s')"
  unfolding walls_wf_def
proof (intro conjI allI impI)
  show "length (walls_by_index s') = 2 * W * H" using wf a by (simp add: walls_wf_def advances_def)
next
  fix x y d assume xy: "x < W" "y < H"
  let ?i = "wall_index W x y d"
  have i: "?i < length (walls_by_index s)"
    using wall_index_less[OF xy, of d] wf by (simp add: walls_wf_def)
  from wf xy have c: "case walls_by_index s ! ?i of
          None \<Rightarrow> \<not> present W H x y d
        | Some w \<Rightarrow> present W H x y d \<and> wall_x w = x \<and> wall_y w = y \<and> dr w = d"
    by (simp add: walls_wf_def)
  show "case walls_by_index s' ! ?i of
          None \<Rightarrow> \<not> present W H x y d
        | Some w \<Rightarrow> present W H x y d \<and> wall_x w = x \<and> wall_y w = y \<and> dr w = d"
  proof (cases "walls_by_index s ! ?i")
    case None
    from advances_no_wall[OF a i None] None c show ?thesis by simp
  next
    case (Some w)
    from advances_wall[OF a i Some] Some c show ?thesis by auto
  qed
qed

lemma kruskal_inv_grows:
  assumes k: "kruskal_inv W s X" and g: "grows s s'"
  shows "kruskal_inv W s' X"
  unfolding kruskal_inv_def
proof (intro allI impI)
  fix i assume "i < length (walls_by_index s')"
  then have i: "i < length (walls_by_index s)" using g by (simp add: grows_def)
  have uf: "union_find s' = union_find s" and ql: "length (wall_queues s') = length (wall_queues s)"
    and qsub: "\<And>k. k < length (wall_queues s) \<Longrightarrow> set (wall_queues s ! k) \<subseteq> set (wall_queues s' ! k)"
    using g by (simp_all add: grows_def)
  show "case walls_by_index s' ! i of
          None \<Rightarrow> True
        | Some w \<Rightarrow>
            (clr w \<longrightarrow> joined (union_find s') W w) \<and>
            (i \<in> X \<or> joined (union_find s') W w \<or>
             (wall_typ w < length (wall_queues s') \<and> i \<in> set (wall_queues s' ! wall_typ w)))"
  proof (cases "walls_by_index s ! i")
    case None
    from grows_no_wall[OF g i None] show ?thesis by simp
  next
    case (Some w)
    from grows_wall[OF g i Some] obtain w' where w': "walls_by_index s' ! i = Some w'"
      "wall_x w' = wall_x w" "wall_y w' = wall_y w" "dr w' = dr w" "clr w' = clr w"
      "wall_typ w' \<noteq> wall_typ w \<longrightarrow>
         wall_typ w' < length (wall_queues s') \<and> i \<in> set (wall_queues s' ! wall_typ w')"
      by blast
    from k i Some have old: "clr w \<longrightarrow> joined (union_find s) W w"
      "i \<in> X \<or> joined (union_find s) W w \<or>
         (wall_typ w < length (wall_queues s) \<and> i \<in> set (wall_queues s ! wall_typ w))"
      by (auto simp add: kruskal_inv_def)
    have j: "joined (union_find s') W w' = joined (union_find s) W w"
      using w'(2,3,4) uf by (simp add: joined_def)
    have "i \<in> X \<or> joined (union_find s) W w \<or>
          (wall_typ w' < length (wall_queues s') \<and> i \<in> set (wall_queues s' ! wall_typ w'))"
    proof (cases "wall_typ w' = wall_typ w")
      case True
      with old(2) qsub[of "wall_typ w"] ql show ?thesis by auto
    next
      case False
      with w'(6) show ?thesis by simp
    qed
    with w'(1,5) old(1) j show ?thesis by simp
  qed
qed

lemma count_inv_grows:
  assumes c: "count_inv W H s" and g: "grows s s'"
  shows "count_inv W H s'"
proof -
  have "removed (walls_by_index s' ! i) = removed (walls_by_index s ! i)"
    if i: "i < length (walls_by_index s)" for i
  proof (cases "walls_by_index s ! i")
    case None
    from grows_no_wall[OF g i None] None show ?thesis by simp
  next
    case (Some w)
    from grows_wall[OF g i Some] Some show ?thesis by (auto simp add: removed_def)
  qed
  then have "length (filter removed (walls_by_index s')) = length (filter removed (walls_by_index s))"
    using g by (intro removed_count_eq) (simp_all add: grows_def)
  with c g show ?thesis by (simp add: count_inv_def grows_def)
qed

lemma maze_inv_grows:
  assumes "maze_inv W H s X" "grows s s'"
  shows "maze_inv W H s' X"
  using assms walls_wf_advances[OF _ grows_advances[OF assms(2)]]
    kruskal_inv_grows[OF _ assms(2)] count_inv_grows[OF _ assms(2)]
  by (simp add: maze_inv_def grows_def)

subsection \<open>The loop over the six neighbours\<close>

lemma update_neighbour_grows:
  assumes len: "length (walls_by_index s) = 2 * W * H" and q9: "9 \<le> length (wall_queues s)"
  shows "\<exists>s' g'. update_neighbour W H w i (s, g) = ret (s', g') \<and> grows s s'"
proof -
  from get_neighbour_ret[OF len, of w i] obtain r where
    r: "get_neighbour W H (walls_by_index s) w i = ret r"
    "\<forall>k. r = Some k \<longrightarrow> k < length (walls_by_index s) \<and> (\<exists>v. walls_by_index s ! k = Some v)"
    by blast
  show ?thesis
  proof (cases r)
    case None
    with r(1) grows_refl show ?thesis by (simp add: update_neighbour_def)
  next
    case (Some n)
    with r(2) obtain v where "deref (walls_by_index s) n = Some v" by (auto simp add: deref_def)
    from update_wall_type_grows[OF len q9 this, of g] r(1) Some show ?thesis
      by (simp add: update_neighbour_def)
  qed
qed

lemma update_neighbours_grows:
  assumes len: "length (walls_by_index s) = 2 * W * H" and q9: "9 \<le> length (wall_queues s)"
  shows "\<exists>s' g'. for_each (update_neighbour W H w) xs (s, g) = ret (s', g') \<and> grows s s'"
proof -
  let ?I = "\<lambda>st :: maze \<times> rng. grows s (fst st)"
  have "\<exists>st'. for_each (update_neighbour W H w) xs (s, g) = ret st' \<and> ?I st'"
  proof (rule for_each_invariant)
    show "?I (s, g)" by (simp add: grows_refl)
  next
    fix i and st :: "maze \<times> rng" assume I: "?I st"
    obtain s1 g1 where st: "st = (s1, g1)" by (cases st)
    from I st have g1: "grows s s1" by simp
    then have "length (walls_by_index s1) = 2 * W * H" "9 \<le> length (wall_queues s1)"
      using len q9 by (simp_all add: grows_def)
    from update_neighbour_grows[OF this, of w i g1] obtain s2 g2 where
      "update_neighbour W H w i (s1, g1) = ret (s2, g2)" "grows s1 s2" by blast
    with g1 st show "\<exists>st'. update_neighbour W H w i st = ret st' \<and> ?I st'"
      using grows_trans by auto
  qed
  then show ?thesis by auto
qed

subsection \<open>try_wall\<close>

lemma wall_cells_in_range:
  assumes wf: "walls_wf W H ws" and r: "r < length ws" and w: "ws ! r = Some w"
  shows "wall_y w * W + wall_x w < W * H \<and>
         wall_y w * W + wall_x w + (if dr w then 1 else W) < W * H"
proof -
  from wf r have "r < 2 * W * H" by (simp add: walls_wf_def)
  from wall_index_cover[OF this] obtain x y d where
    xy: "x < W" "y < H" and i: "r = wall_index W x y d" by blast
  from wf xy have "case ws ! wall_index W x y d of
          None \<Rightarrow> \<not> present W H x y d
        | Some w \<Rightarrow> present W H x y d \<and> wall_x w = x \<and> wall_y w = y \<and> dr w = d"
    by (simp add: walls_wf_def)
  with i w have p: "present W H x y d" and c: "wall_x w = x" "wall_y w = y" "dr w = d" by simp_all
  have a: "y * W + x < W * H"
  proof -
    from xy have "y * W + x < (y + 1) * W" by simp
    also from xy have "(y + 1) * W \<le> H * W" by (intro mult_le_mono1) simp
    finally show ?thesis by (simp add: mult.commute)
  qed
  have b: "y * W + x + (if d then 1 else W) < W * H"
  proof (cases d)
    case True
    with p have "x + 1 < W" by (simp add: present_def)
    then have "y * W + x + 1 < (y + 1) * W" by simp
    also from xy have "(y + 1) * W \<le> H * W" by (intro mult_le_mono1) simp
    finally show ?thesis using True by (simp add: mult.commute)
  next
    case False
    with p have "y + 1 < H" by (simp add: present_def)
    from xy have "y * W + x + W < (y + 2) * W" by simp
    also from \<open>y + 1 < H\<close> have "(y + 2) * W \<le> H * W" by (intro mult_le_mono1) simp
    finally show ?thesis using False by (simp add: mult.commute)
  qed
  from a b c show ?thesis by simp
qed

lemma kruskal_wall:
  assumes "kruskal_inv W s X" "i < length (walls_by_index s)" "walls_by_index s ! i = Some v"
  shows "(clr v \<longrightarrow> joined (union_find s) W v) \<and>
         (i \<in> X \<or> joined (union_find s) W v \<or>
          (wall_typ v < length (wall_queues s) \<and> i \<in> set (wall_queues s ! wall_typ v)))"
proof -
  from assms(1,2) have "case walls_by_index s ! i of
          None \<Rightarrow> True
        | Some w \<Rightarrow>
            (clr w \<longrightarrow> joined (union_find s) W w) \<and>
            (i \<in> X \<or> joined (union_find s) W w \<or>
             (wall_typ w < length (wall_queues s) \<and> i \<in> set (wall_queues s ! wall_typ w)))"
    by (simp add: kruskal_inv_def)
  with assms(3) show ?thesis by simp
qed

lemma kruskal_invI:
  assumes "\<And>i v. i < length (walls_by_index s) \<Longrightarrow> walls_by_index s ! i = Some v \<Longrightarrow>
         (clr v \<longrightarrow> joined (union_find s) W v) \<and>
         (i \<in> X \<or> joined (union_find s) W v \<or>
          (wall_typ v < length (wall_queues s) \<and> i \<in> set (wall_queues s ! wall_typ v)))"
  shows "kruskal_inv W s X"
  unfolding kruskal_inv_def
proof (intro allI impI)
  fix i assume i: "i < length (walls_by_index s)"
  show "case walls_by_index s ! i of
          None \<Rightarrow> True
        | Some w \<Rightarrow>
            (clr w \<longrightarrow> joined (union_find s) W w) \<and>
            (i \<in> X \<or> joined (union_find s) W w \<or>
             (wall_typ w < length (wall_queues s) \<and> i \<in> set (wall_queues s ! wall_typ w)))"
  proof (cases "walls_by_index s ! i")
    case None
    then show ?thesis by simp
  next
    case (Some v)
    with assms[OF i Some] show ?thesis by simp
  qed
qed

lemma kruskal_inv_join:
  assumes k: "kruskal_inv W s X"
    and mono: "\<And>v. joined (union_find s) W v \<Longrightarrow> joined uf' W v"
    and r: "r < length (walls_by_index s)" "walls_by_index s ! r = Some w" "joined uf' W w"
  shows "kruskal_inv W (s\<lparr>union_find := uf'\<rparr>) (X - {r})"
proof (rule kruskal_invI)
  let ?s = "s\<lparr>union_find := uf'\<rparr>"
  fix i v assume "i < length (walls_by_index ?s)" "walls_by_index ?s ! i = Some v"
  then have i: "i < length (walls_by_index s)" "walls_by_index s ! i = Some v" by simp_all
  from kruskal_wall[OF k i] have old: "clr v \<longrightarrow> joined (union_find s) W v"
      "i \<in> X \<or> joined (union_find s) W v \<or>
         (wall_typ v < length (wall_queues s) \<and> i \<in> set (wall_queues s ! wall_typ v))"
    by auto
  show "(clr v \<longrightarrow> joined (union_find ?s) W v) \<and>
         (i \<in> X - {r} \<or> joined (union_find ?s) W v \<or>
          (wall_typ v < length (wall_queues ?s) \<and> i \<in> set (wall_queues ?s ! wall_typ v)))"
  proof (cases "i = r")
    case True
    with i r old mono show ?thesis by auto
  next
    case False
    with old mono show ?thesis by auto
  qed
qed

lemma kruskal_inv_open:
  assumes k: "kruskal_inv W s X"
    and r: "r < length (walls_by_index s)" "walls_by_index s ! r = Some w"
      "joined (union_find s) W w"
  shows "kruskal_inv W (s\<lparr>walls_by_index := (walls_by_index s)[r := Some (w\<lparr>clr := True\<rparr>)]\<rparr>) X"
proof (rule kruskal_invI)
  let ?s = "s\<lparr>walls_by_index := (walls_by_index s)[r := Some (w\<lparr>clr := True\<rparr>)]\<rparr>"
  fix i v assume iv: "i < length (walls_by_index ?s)" "walls_by_index ?s ! i = Some v"
  then have i: "i < length (walls_by_index s)" by simp
  show "(clr v \<longrightarrow> joined (union_find ?s) W v) \<and>
         (i \<in> X \<or> joined (union_find ?s) W v \<or>
          (wall_typ v < length (wall_queues ?s) \<and> i \<in> set (wall_queues ?s ! wall_typ v)))"
  proof (cases "i = r")
    case True
    with r iv have "v = w\<lparr>clr := True\<rparr>" by simp
    with r(3) show ?thesis by (simp add: joined_def)
  next
    case False
    with iv have "walls_by_index s ! i = Some v" by simp
    from kruskal_wall[OF k i this] show ?thesis by simp
  qed
qed

lemma mu_open:
  assumes r: "r < length (walls_by_index s)" "walls_by_index s ! r = Some w"
  shows "mu (s\<lparr>union_find := uf', walls_by_index := (walls_by_index s)[r := Some (w\<lparr>clr := True\<rparr>)]\<rparr>) = mu s"
proof -
  let ?f = "\<lambda>w. case w of None \<Rightarrow> (0::nat) | Some v \<Rightarrow> 8 - wall_typ v"
  have "map ?f ((walls_by_index s)[r := Some (w\<lparr>clr := True\<rparr>)]) = (map ?f (walls_by_index s))[r := ?f (walls_by_index s ! r)]"
    using r by (simp add: map_update)
  also have "\<dots> = map ?f (walls_by_index s)"
    using r(1) by (simp add: list_update_same_conv)
  finally show ?thesis by (simp add: mu_def)
qed

lemma advances_open:
  assumes r: "r < length (walls_by_index s)" "walls_by_index s ! r = Some w"
  shows "advances s (s\<lparr>union_find := uf', walls_by_index := (walls_by_index s)[r := Some (w\<lparr>clr := True\<rparr>)]\<rparr>)"
proof (rule advancesI)
  fix i v assume i: "i < length (walls_by_index s)" "walls_by_index s ! i = Some v"
  let ?s = "s\<lparr>union_find := uf', walls_by_index := (walls_by_index s)[r := Some (w\<lparr>clr := True\<rparr>)]\<rparr>"
  show "\<exists>w'. walls_by_index ?s ! i = Some w' \<and> wall_x w' = wall_x v \<and> wall_y w' = wall_y v \<and>
               dr w' = dr v \<and> (clr v \<longrightarrow> clr w') \<and> wall_typ v \<le> wall_typ w'"
    using i r by (cases "i = r") auto
next
  fix i assume "i < length (walls_by_index s)" "walls_by_index s ! i = None"
  with r show "walls_by_index (s\<lparr>union_find := uf', walls_by_index := (walls_by_index s)[r := Some (w\<lparr>clr := True\<rparr>)]\<rparr>) ! i = None"
    by (cases "i = r") auto
qed simp_all

lemma advances_union_find: "advances s (s\<lparr>union_find := uf'\<rparr>)"
  by (rule advancesI) auto

lemma card_image_merge:
  assumes fin: "finite S" and a: "a \<in> S" and b: "b \<in> S" and diff: "f a \<noteq> f b"
    and wl: "{winner, loser} = {f a, f b}"
    and f': "\<And>x. f' x = (if f x = loser then winner else f x)"
  shows "Suc (card (f' ` S)) = card (f ` S)"
proof -
  from wl diff have ne: "winner \<noteq> loser" by (auto simp add: doubleton_eq_iff)
  from wl a b have win: "winner \<in> f ` S" and los: "loser \<in> f ` S"
    by (auto simp add: doubleton_eq_iff)
  have "f' ` S = f ` S - {loser}"
  proof (intro equalityI subsetI)
    fix y assume "y \<in> f' ` S"
    then obtain x where x: "x \<in> S" "y = f' x" by auto
    show "y \<in> f ` S - {loser}"
    proof (cases "f x = loser")
      case True
      with x f' win ne show ?thesis by simp
    next
      case False
      with x f' show ?thesis by auto
    qed
  next
    fix y assume "y \<in> f ` S - {loser}"
    then obtain x where x: "x \<in> S" "y = f x" "f x \<noteq> loser" by auto
    with f' have "f' x = y" by simp
    with x(1) show "y \<in> f' ` S" by auto
  qed
  then have "card (f' ` S) = card (f ` S) - 1" using fin los by simp
  moreover have "0 < card (f ` S)" using fin los by (auto simp add: card_gt_0_iff)
  ultimately show ?thesis by simp
qed

lemma try_wall_correct:
  assumes inv: "maze_inv W H s {r}" and w: "deref (walls_by_index s) r = Some w"
  shows "\<exists>res s' g'. try_wall W H r (s, g) = ret (res, s', g') \<and> maze_inv W H s' {} \<and>
           advances s s' \<and> mu s' \<le> mu s"
proof -
  let ?ws = "walls_by_index s" and ?uf = "union_find s"
  from inv have q9: "length (wall_queues s) = 9" and wf: "walls_wf W H ?ws"
    and ufi: "uf_inv ?uf" and k: "kruskal_inv W s {r}" and cnt: "count_inv W H s"
    by (simp_all add: maze_inv_def)
  from w have r: "r < length ?ws" "?ws ! r = Some w"
    by (auto simp add: deref_def split: if_splits)
  have same_s: "s\<lparr>union_find := ?uf\<rparr> = s" by simp
  show ?thesis
  proof (cases "clr w")
    case True
    then have t: "try_wall W H r (s, g) = ret (False, s, g)" by (simp add: try_wall_def w)
    from kruskal_wall[OF k r] True have j: "joined ?uf W w" by simp
    have "kruskal_inv W (s\<lparr>union_find := ?uf\<rparr>) ({r} - {r})"
      by (rule kruskal_inv_join[OF k _ r j]) simp
    then have "kruskal_inv W s {}" by (simp add: same_s)
    with inv have "maze_inv W H s {}" by (simp add: maze_inv_def)
    with t advances_refl show ?thesis by auto
  next
    case closed: False
    let ?c1 = "wall_y w * W + wall_x w"
    let ?c2 = "?c1 + (if dr w then 1 else W)"
    from wall_cells_in_range[OF wf r] have c: "?c1 < W * H" "?c2 < W * H" by simp_all
    from union_uf_cases[OF ufi, of ?c1 ?c2] obtain res uf' winner loser where
      u: "union_uf ?uf ?c1 ?c2 = ret (res, uf')" and ufi': "uf_inv uf'"
      and res: "res \<longleftrightarrow> rep ?uf ?c1 \<noteq> rep ?uf ?c2"
      and wl: "{winner, loser} = {rep ?uf ?c1, rep ?uf ?c2}"
      and rep': "\<And>x. rep uf' x = (if rep ?uf x = loser then winner else rep ?uf x)"
      by blast
    have mono: "joined uf' W v" if "joined ?uf W v" for v
      using that by (simp add: joined_def rep')
    have jw: "joined uf' W w"
    proof -
      from wl have "rep ?uf ?c1 = winner \<or> rep ?uf ?c1 = loser"
        "rep ?uf ?c2 = winner \<or> rep ?uf ?c2 = loser"
        by (auto simp add: doubleton_eq_iff)
      then have "rep uf' ?c1 = winner" "rep uf' ?c2 = winner" by (auto simp add: rep')
      then show ?thesis by (simp add: joined_def)
    qed
    let ?s1 = "s\<lparr>union_find := uf'\<rparr>"
    have k1: "kruskal_inv W ?s1 {}"
      using kruskal_inv_join[OF k mono r jw] by simp
    show ?thesis
    proof (cases res)
      case False
      then have t: "try_wall W H r (s, g) = ret (False, ?s1, g)"
        using closed u by (simp add: try_wall_def w Let_def)
      from False res wl have "winner = loser" by (auto simp add: doubleton_eq_iff)
      then have "rep uf' x = rep ?uf x" for x by (simp add: rep')
      then have "rep uf' ` {..<W * H} = rep ?uf ` {..<W * H}" by auto
      with cnt have "count_inv W H ?s1" by (simp add: count_inv_def)
      with q9 wf ufi' k1 have "maze_inv W H ?s1 {}" by (simp add: maze_inv_def)
      moreover have "mu ?s1 \<le> mu s" by (simp add: mu_def)
      ultimately show ?thesis using t advances_union_find by blast
    next
      case True
      let ?s2 = "s\<lparr>union_find := uf', walls_by_index := ?ws[r := Some (w\<lparr>clr := True\<rparr>)]\<rparr>"
      have s2: "?s2 = ?s1\<lparr>walls_by_index := (walls_by_index ?s1)[r := Some (w\<lparr>clr := True\<rparr>)]\<rparr>"
        by simp
      have adv: "advances s ?s2" by (rule advances_open[OF r])
      have wf2: "walls_wf W H (walls_by_index ?s2)" by (rule walls_wf_advances[OF wf adv])
      have k2: "kruskal_inv W ?s2 {}"
        unfolding s2 by (rule kruskal_inv_open[OF k1]) (use r jw in simp_all)
      have card: "Suc (card (rep uf' ` {..<W * H})) = card (rep ?uf ` {..<W * H})"
        by (rule card_image_merge[where a = ?c1 and b = ?c2 and winner = winner and loser = loser])
           (use c True res wl rep' in auto)
      have "length (filter removed (?ws[r := Some (w\<lparr>clr := True\<rparr>)])) = Suc (length (filter removed ?ws))"
        by (rule removed_count_open[OF r closed])
      with card cnt have cnt2: "count_inv W H ?s2" by (simp add: count_inv_def)
      from q9 wf2 ufi' k2 cnt2 have inv2: "maze_inv W H ?s2 {}" by (simp add: maze_inv_def)
      have len2: "length (walls_by_index ?s2) = 2 * W * H" using wf2 by (simp add: walls_wf_def)
      have q92: "9 \<le> length (wall_queues ?s2)" using q9 by simp
      from update_neighbours_grows[OF len2 q92, of w "[0..<6]" g] obtain s' g' where
        f: "for_each (update_neighbour W H w) [0..<6] (?s2, g) = ret (s', g')" and gr: "grows ?s2 s'"
        by blast
      have t: "try_wall W H r (s, g) = ret (True, s', g')"
        using closed u True f by (simp add: try_wall_def w Let_def)
      have "maze_inv W H s' {}" by (rule maze_inv_grows[OF inv2 gr])
      moreover have "advances s s'" by (rule advances_trans[OF adv grows_advances[OF gr]])
      moreover have "mu s' \<le> mu s"
      proof -
        from gr have "mu s' \<le> mu ?s2" by (simp add: grows_def)
        also have "mu ?s2 = mu s" by (rule mu_open[OF r])
        finally show ?thesis .
      qed
      ultimately show ?thesis using t by blast
    qed
  qed
qed

subsection \<open>Weighted selection of a queue\<close>

lemma weights_pos: "i < 9 \<Longrightarrow> 0 < weights ! i"
proof -
  assume i: "i < 9"
  have "length [W_MAX, W_HIGH, W_MED, W_HIGH, W_MED_HIGH, W_LOW_MED, W_MED, W_LOW_MED, W_LOW] = 9"
    by simp
  with i have "weights ! i = 2 powr (real ([W_MAX, W_HIGH, W_MED, W_HIGH, W_MED_HIGH, W_LOW_MED, W_MED, W_LOW_MED, W_LOW] ! i) * 0.5)"
    unfolding weights_def by (subst nth_map) simp_all
  then show ?thesis by simp
qed

lemma queue_weight_nonneg: "i < 9 \<Longrightarrow> 0 \<le> queue_weight qs i"
  using weights_pos[of i] by (simp add: queue_weight_def)

lemma queue_weight_pos_iff: "i < 9 \<Longrightarrow> 0 < queue_weight qs i \<longleftrightarrow> qs ! i \<noteq> []"
  using weights_pos[of i] by (simp add: queue_weight_def zero_less_mult_iff)

lemma total_weight_nonneg: "0 \<le> total_weight qs"
  unfolding total_weight_def by (rule sum_list_nonneg) (auto simp add: queue_weight_nonneg)

lemma total_weight_le_0_iff: "total_weight qs \<le> 0 \<longleftrightarrow> (\<forall>i<9. qs ! i = [])"
proof -
  have "total_weight qs \<le> 0 \<longleftrightarrow> total_weight qs = 0" using total_weight_nonneg[of qs] by auto
  also have "\<dots> \<longleftrightarrow> (\<forall>x\<in>set (map (queue_weight qs) [0..<9]). x = 0)"
    unfolding total_weight_def by (rule sum_list_nonneg_eq_0_iff) (auto simp add: queue_weight_nonneg)
  also have "\<dots> \<longleftrightarrow> (\<forall>i<9. queue_weight qs i = 0)" by auto
  also have "\<dots> \<longleftrightarrow> (\<forall>i<9. qs ! i = [])"
    using queue_weight_pos_iff[of _ qs] queue_weight_nonneg[of _ qs]
    by (metis less_eq_real_def not_less)
  finally show ?thesis .
qed

lemma select_queue_pick:
  assumes "\<And>i. i \<in> set idxs \<Longrightarrow> 0 \<le> queue_weight qs i"
    and "0 \<le> r" and "r < (\<Sum>i\<leftarrow>idxs. queue_weight qs i)"
  shows "select_queue qs idxs r \<in> set idxs \<and> 0 < queue_weight qs (select_queue qs idxs r)"
  using assms
proof (induction idxs arbitrary: r)
  case Nil
  then show ?case by simp
next
  case (Cons i rest)
  show ?case
  proof (cases "r < queue_weight qs i")
    case True
    with Cons.prems(2) show ?thesis by simp
  next
    case False
    have "select_queue qs rest (r - queue_weight qs i) \<in> set rest \<and>
          0 < queue_weight qs (select_queue qs rest (r - queue_weight qs i))"
      by (rule Cons.IH) (use Cons.prems False in auto)
    with False show ?thesis by simp
  qed
qed

lemma step_selects_nonempty:
  assumes pos: "\<not> total_weight qs \<le> 0"
  shows "select_queue qs [0..<9] (total_weight qs * fst (random_random g)) < 9 \<and>
         qs ! select_queue qs [0..<9] (total_weight qs * fst (random_random g)) \<noteq> []"
proof -
  let ?r = "total_weight qs * fst (random_random g)"
  from random_random_range[of g] have u: "0 \<le> fst (random_random g)" "fst (random_random g) < 1"
    by simp_all
  from pos have t: "0 < total_weight qs" by simp
  have "0 \<le> ?r" using t u(1) by simp
  moreover have "?r < total_weight qs" using t u(2) by simp
  then have "?r < (\<Sum>i\<leftarrow>[0..<9]. queue_weight qs i)" by (simp add: total_weight_def)
  ultimately have "select_queue qs [0..<9] ?r \<in> set [0..<9] \<and>
      0 < queue_weight qs (select_queue qs [0..<9] ?r)"
    by (intro select_queue_pick) (auto simp add: queue_weight_nonneg)
  then show ?thesis using queue_weight_pos_iff[of "select_queue qs [0..<9] ?r" qs] by simp
qed

subsection \<open>Popping a queue entry\<close>

lemma set_butlast_last:
  assumes "q \<noteq> []"
  shows "set q = insert (last q) (set (butlast q))"
proof -
  from assms have "q = butlast q @ [last q]" by simp
  then have "set q = set (butlast q @ [last q])" by simp
  then show ?thesis by simp
qed

lemma pop_correct:
  assumes inv: "maze_inv W H s {}" and qi: "qi < 9" and ne: "wall_queues s ! qi \<noteq> []"
  shows "maze_inv W H (s\<lparr>wall_queues := (wall_queues s)[qi := butlast (wall_queues s ! qi)]\<rparr>)
           {last (wall_queues s ! qi)} \<and>
         Suc (mu (s\<lparr>wall_queues := (wall_queues s)[qi := butlast (wall_queues s ! qi)]\<rparr>)) = mu s \<and>
         advances s (s\<lparr>wall_queues := (wall_queues s)[qi := butlast (wall_queues s ! qi)]\<rparr>)"
proof -
  let ?q = "wall_queues s ! qi"
  let ?s = "s\<lparr>wall_queues := (wall_queues s)[qi := butlast ?q]\<rparr>"
  from inv have q9: "length (wall_queues s) = 9" and k: "kruskal_inv W s {}"
    by (simp_all add: maze_inv_def)
  have k': "kruskal_inv W ?s {last ?q}"
  proof (rule kruskal_invI)
    fix i v assume "i < length (walls_by_index ?s)" "walls_by_index ?s ! i = Some v"
    then have i: "i < length (walls_by_index s)" "walls_by_index s ! i = Some v" by simp_all
    from kruskal_wall[OF k i] have old: "clr v \<longrightarrow> joined (union_find s) W v"
      "joined (union_find s) W v \<or>
         (wall_typ v < length (wall_queues s) \<and> i \<in> set (wall_queues s ! wall_typ v))" by auto
    have "i = last ?q \<or> i \<in> set (wall_queues ?s ! wall_typ v)"
      if m: "wall_typ v < length (wall_queues s)" "i \<in> set (wall_queues s ! wall_typ v)"
    proof (cases "wall_typ v = qi")
      case True
      with m set_butlast_last[OF ne] show ?thesis by auto
    next
      case False
      with m show ?thesis by simp
    qed
    with old show "(clr v \<longrightarrow> joined (union_find ?s) W v) \<and>
         (i \<in> {last ?q} \<or> joined (union_find ?s) W v \<or>
          (wall_typ v < length (wall_queues ?s) \<and> i \<in> set (wall_queues ?s ! wall_typ v)))"
      by auto
  qed
  have "count_inv W H ?s" using inv by (simp add: maze_inv_def count_inv_def)
  with inv k' have a: "maze_inv W H ?s {last ?q}" by (simp add: maze_inv_def)
  have "sum_list (map length ((wall_queues s)[qi := butlast ?q])) =
        sum_list ((map length (wall_queues s))[qi := length ?q - 1])"
    by (simp add: map_update)
  also have "\<dots> = sum_list (map length (wall_queues s)) + (length ?q - 1) - length ?q"
    using qi q9 by (simp add: sum_list_update)
  finally have "Suc (sum_list (map length ((wall_queues s)[qi := butlast ?q]))) =
      Suc (sum_list (map length (wall_queues s)) + (length ?q - 1) - length ?q)" by simp
  moreover have "length ?q \<le> sum_list (map length (wall_queues s))"
  proof -
    have "length ?q \<in> set (map length (wall_queues s))" using qi q9 by (auto intro!: imageI nth_mem)
    then show ?thesis by (rule member_le_sum_list) simp_all
  qed
  moreover have "0 < length ?q" using ne by simp
  ultimately have b: "Suc (mu ?s) = mu s" by (simp add: mu_def)
  have c: "advances s ?s" by (rule advancesI) auto
  from a b c show ?thesis by blast
qed

lemma kruskal_inv_shrink:
  assumes k: "kruskal_inv W s X"
    and x: "\<And>i v. i \<in> X \<Longrightarrow> i < length (walls_by_index s) \<Longrightarrow> walls_by_index s ! i = Some v \<Longrightarrow>
           joined (union_find s) W v \<or>
           (wall_typ v < length (wall_queues s) \<and> i \<in> set (wall_queues s ! wall_typ v))"
  shows "kruskal_inv W s {}"
proof (rule kruskal_invI)
  fix i v assume i: "i < length (walls_by_index s)" "walls_by_index s ! i = Some v"
  from kruskal_wall[OF k i] x[OF _ i]
  show "(clr v \<longrightarrow> joined (union_find s) W v) \<and>
         (i \<in> {} \<or> joined (union_find s) W v \<or>
          (wall_typ v < length (wall_queues s) \<and> i \<in> set (wall_queues s ! wall_typ v)))"
    by auto
qed

subsection \<open>One step of the generator\<close>

lemma step_done:
  assumes "9 \<le> length (wall_queues s)" "total_weight (wall_queues s) \<le> 0"
  shows "step W H (s, g) = ret (False, s, g)"
  using assms by (simp add: step_def)

lemma step_correct:
  assumes inv: "maze_inv W H s {}"
  shows "\<exists>res s' g'. step W H (s, g) = ret (res, s', g') \<and> maze_inv W H s' {} \<and> advances s s' \<and>
           (if res then mu s' < mu s
            else s' = s \<and> g' = g \<and> (\<forall>i<9. wall_queues s ! i = []))"
proof (cases "total_weight (wall_queues s) \<le> 0")
  case True
  from inv have q9: "length (wall_queues s) = 9" by (simp add: maze_inv_def)
  then have "step W H (s, g) = ret (False, s, g)" using True by (simp add: step_def)
  moreover from True have "\<forall>i<9. wall_queues s ! i = []" by (simp add: total_weight_le_0_iff)
  ultimately show ?thesis using inv advances_refl by auto
next
  case False
  let ?qs = "wall_queues s"
  let ?g1 = "snd (random_random g)"
  let ?qi = "select_queue ?qs [0..<9] (total_weight ?qs * fst (random_random g))"
  let ?q = "?qs ! ?qi"
  let ?wall = "last ?q"
  let ?s1 = "s\<lparr>wall_queues := ?qs[?qi := butlast ?q]\<rparr>"
  from inv have q9: "length ?qs = 9" and k: "kruskal_inv W s {}" by (simp_all add: maze_inv_def)
  from step_selects_nonempty[OF False, of g] have qi: "?qi < 9" and ne: "?q \<noteq> []" by simp_all
  from pop_correct[OF inv qi ne] have inv1: "maze_inv W H ?s1 {?wall}"
    and mu1: "Suc (mu ?s1) = mu s" and adv1: "advances s ?s1" by simp_all
  have st: "step W H (s, g) =
     (case deref (walls_by_index ?s1) ?wall of
        None \<Rightarrow> ret (True, ?s1, ?g1)
      | Some w \<Rightarrow>
          if wall_typ w = ?qi
          then and_then (try_wall W H ?wall (?s1, ?g1)) (\<lambda>(opened, s2, g2). ret (True, s2, g2))
          else ret (True, ?s1, ?g1))"
    using False q9 ne by (simp add: step_def Let_def case_prod_unfold)
  from inv1 have k1: "kruskal_inv W ?s1 {?wall}" by (simp add: maze_inv_def)
  show ?thesis
  proof (cases "deref (walls_by_index ?s1) ?wall")
    case None
    have "kruskal_inv W ?s1 {}"
    proof (rule kruskal_inv_shrink[OF k1])
      fix i v assume "i \<in> {?wall}" "i < length (walls_by_index ?s1)" "walls_by_index ?s1 ! i = Some v"
      with None show "joined (union_find ?s1) W v \<or>
           (wall_typ v < length (wall_queues ?s1) \<and> i \<in> set (wall_queues ?s1 ! wall_typ v))"
        by (simp add: deref_def)
    qed
    with inv1 have "maze_inv W H ?s1 {}" by (simp add: maze_inv_def)
    moreover from st None have "step W H (s, g) = ret (True, ?s1, ?g1)" by simp
    moreover from mu1 have "mu ?s1 < mu s" by simp
    ultimately show ?thesis using adv1 by auto
  next
    case (Some w)
    show ?thesis
    proof (cases "wall_typ w = ?qi")
      case stale: False
      have "kruskal_inv W ?s1 {}"
      proof (rule kruskal_inv_shrink[OF k1])
        fix i v assume iv: "i \<in> {?wall}" "i < length (walls_by_index ?s1)"
          "walls_by_index ?s1 ! i = Some v"
        with Some have vw: "v = w" and i: "i < length (walls_by_index s)" "walls_by_index s ! i = Some w"
          by (simp_all add: deref_def split: if_splits)
        from kruskal_wall[OF k i] have "joined (union_find s) W w \<or>
            (wall_typ w < length ?qs \<and> i \<in> set (?qs ! wall_typ w))" by simp
        with stale vw show "joined (union_find ?s1) W v \<or>
           (wall_typ v < length (wall_queues ?s1) \<and> i \<in> set (wall_queues ?s1 ! wall_typ v))"
          by auto
      qed
      with inv1 have "maze_inv W H ?s1 {}" by (simp add: maze_inv_def)
      moreover from st Some stale have "step W H (s, g) = ret (True, ?s1, ?g1)" by simp
      moreover from mu1 have "mu ?s1 < mu s" by simp
      ultimately show ?thesis using adv1 by auto
    next
      case True
      from try_wall_correct[OF inv1 Some, of ?g1] obtain res s' g' where
        t: "try_wall W H ?wall (?s1, ?g1) = ret (res, s', g')" "maze_inv W H s' {}"
        "advances ?s1 s'" "mu s' \<le> mu ?s1" by blast
      from st Some True t(1) have "step W H (s, g) = ret (True, s', g')" by simp
      moreover from t(4) mu1 have "mu s' < mu s" by simp
      moreover have "advances s s'" by (rule advances_trans[OF adv1 t(3)])
      ultimately show ?thesis using t(2) by auto
    qed
  qed
qed

subsection \<open>Any number of steps, and the driver loop\<close>

lemma steps_correct:
  assumes inv: "maze_inv W H s {}"
  shows "\<exists>res s' g'. steps W H n (s, g) = ret (res, s', g') \<and> maze_inv W H s' {} \<and> advances s s' \<and>
           (\<not> res \<longrightarrow> (\<forall>i<9. wall_queues s' ! i = []))"
proof (induction n)
  case 0
  have "steps W H 0 (s, g) = ret (True, s, g)" by simp
  with inv advances_refl[of s] show ?case by blast
next
  case (Suc n)
  then obtain res1 s1 g1 where 1: "steps W H n (s, g) = ret (res1, s1, g1)" "maze_inv W H s1 {}"
    "advances s s1" by blast
  from step_correct[OF 1(2), of g1] obtain res s' g' where
    2: "step W H (s1, g1) = ret (res, s', g')" "maze_inv W H s' {}" "advances s1 s'"
    "if res then mu s' < mu s1 else s' = s1 \<and> g' = g1 \<and> (\<forall>i<9. wall_queues s1 ! i = [])"
    by blast
  have "steps W H (Suc n) (s, g) = ret (res, s', g')" using 1(1) 2(1) by simp
  moreover have "advances s s'" by (rule advances_trans[OF 1(3) 2(3)])
  moreover have "\<not> res \<longrightarrow> (\<forall>i<9. wall_queues s' ! i = [])" using 2(4) by auto
  ultimately show ?case using 2(2) by blast
qed


subsection \<open>Initialisation\<close>

lemma for_each_upt:
  assumes body: "\<And>i st. i < n \<Longrightarrow> I i st \<Longrightarrow> \<exists>st'. body i st = ret st' \<and> I (Suc i) st'"
    and start: "I 0 st"
  shows "\<exists>st'. for_each body [0..<n] st = ret st' \<and> I n st'"
  using body
proof (induction n)
  case 0
  with start show ?case by simp
next
  case (Suc n)
  have "\<exists>st'. for_each body [0..<n] st = ret st' \<and> I n st'"
    by (rule Suc.IH) (use Suc.prems in auto)
  then obtain st1 where 1: "for_each body [0..<n] st = ret st1" "I n st1" by blast
  from Suc.prems[of n st1] 1(2) obtain st2 where 2: "body n st1 = ret st2" "I (Suc n) st2" by auto
  have "for_each body [0..<Suc n] st = ret st2"
    using 1(1) 2(1) by (simp add: for_each_append)
  with 2(2) show ?case by blast
qed

lemma wall_index_coords:
  assumes "x < W"
  shows "(wall_index W x y d div 2) mod W = x" "(wall_index W x y d div 2) div W = y"
    "even (wall_index W x y d) \<longleftrightarrow> d"
proof -
  have h: "wall_index W x y d div 2 = y * W + x" by (simp add: wall_index_def)
  from assms show "(wall_index W x y d div 2) mod W = x" "(wall_index W x y d div 2) div W = y"
    by (simp_all add: h)
  show "even (wall_index W x y d) \<longleftrightarrow> d" by (simp add: wall_index_def)
qed

lemma fresh_wallsI:
  assumes "union_find s = []" "length (wall_queues s) = 9"
    and "\<And>i. i < length (walls_by_index s) \<Longrightarrow> walls_by_index s ! i = None \<Longrightarrow>
           \<not> present W H ((i div 2) mod W) ((i div 2) div W) (even i)"
    and "\<And>i w. i < length (walls_by_index s) \<Longrightarrow> walls_by_index s ! i = Some w \<Longrightarrow>
            present W H ((i div 2) mod W) ((i div 2) div W) (even i) \<and>
            wall_x w = (i div 2) mod W \<and> wall_y w = (i div 2) div W \<and> dr w = even i \<and>
            wall_typ w = 0 \<and> \<not> clr w \<and> i \<in> set (wall_queues s ! 0)"
  shows "fresh_walls W H s"
  unfolding fresh_walls_def
proof (intro conjI allI impI)
  fix i assume i: "i < length (walls_by_index s)"
  show "case walls_by_index s ! i of
          None \<Rightarrow> \<not> present W H ((i div 2) mod W) ((i div 2) div W) (even i)
        | Some w \<Rightarrow>
            present W H ((i div 2) mod W) ((i div 2) div W) (even i) \<and>
            wall_x w = (i div 2) mod W \<and> wall_y w = (i div 2) div W \<and> dr w = even i \<and>
            wall_typ w = 0 \<and> \<not> clr w \<and> i \<in> set (wall_queues s ! 0)"
  proof (cases "walls_by_index s ! i")
    case None
    with assms(3)[OF i] show ?thesis by simp
  next
    case (Some w)
    with assms(4)[OF i Some] show ?thesis by simp
  qed
qed (use assms(1,2) in auto)

lemma fresh_walls_None:
  assumes "fresh_walls W H s" "i < length (walls_by_index s)" "walls_by_index s ! i = None"
  shows "\<not> present W H ((i div 2) mod W) ((i div 2) div W) (even i)"
proof -
  from assms(1,2) have "case walls_by_index s ! i of
          None \<Rightarrow> \<not> present W H ((i div 2) mod W) ((i div 2) div W) (even i)
        | Some w \<Rightarrow>
            present W H ((i div 2) mod W) ((i div 2) div W) (even i) \<and>
            wall_x w = (i div 2) mod W \<and> wall_y w = (i div 2) div W \<and> dr w = even i \<and>
            wall_typ w = 0 \<and> \<not> clr w \<and> i \<in> set (wall_queues s ! 0)"
    by (simp add: fresh_walls_def)
  with assms(3) show ?thesis by simp
qed

lemma fresh_walls_Some:
  assumes "fresh_walls W H s" "i < length (walls_by_index s)" "walls_by_index s ! i = Some w"
  shows "present W H ((i div 2) mod W) ((i div 2) div W) (even i) \<and>
            wall_x w = (i div 2) mod W \<and> wall_y w = (i div 2) div W \<and> dr w = even i \<and>
            wall_typ w = 0 \<and> \<not> clr w \<and> i \<in> set (wall_queues s ! 0)"
proof -
  from assms(1,2) have "case walls_by_index s ! i of
          None \<Rightarrow> \<not> present W H ((i div 2) mod W) ((i div 2) div W) (even i)
        | Some w \<Rightarrow>
            present W H ((i div 2) mod W) ((i div 2) div W) (even i) \<and>
            wall_x w = (i div 2) mod W \<and> wall_y w = (i div 2) div W \<and> dr w = even i \<and>
            wall_typ w = 0 \<and> \<not> clr w \<and> i \<in> set (wall_queues s ! 0)"
    by (simp add: fresh_walls_def)
  with assms(3) show ?thesis by simp
qed

lemma add_wall_correct:
  assumes f: "fresh_walls W H s" and len: "length (walls_by_index s) = wall_index W x y d"
    and x: "x < W" and p: "p \<longleftrightarrow> present W H x y d"
  shows "\<exists>s' g'. add_wall p x y d (s, g) = ret (s', g') \<and> fresh_walls W H s' \<and>
           length (walls_by_index s') = Suc (wall_index W x y d) \<and>
           start_x s' = start_x s \<and> finish_x s' = finish_x s"
proof (cases p)
  case False
  let ?s = "s\<lparr>walls_by_index := walls_by_index s @ [None]\<rparr>"
  have a: "add_wall p x y d (s, g) = ret (?s, g)" using False by (simp add: add_wall_def)
  have "fresh_walls W H ?s"
  proof (rule fresh_wallsI)
    show "union_find ?s = []" "length (wall_queues ?s) = 9" using f by (simp_all add: fresh_walls_def)
  next
    fix i assume i: "i < length (walls_by_index ?s)" "walls_by_index ?s ! i = None"
    show "\<not> present W H ((i div 2) mod W) ((i div 2) div W) (even i)"
    proof (cases "i < length (walls_by_index s)")
      case True
      with i have "walls_by_index s ! i = None" by (simp add: nth_append)
      from fresh_walls_None[OF f True this] show ?thesis .
    next
      case False
      with i have "i = wall_index W x y d" using len by simp
      with False p \<open>\<not> p\<close> x show ?thesis by (simp add: wall_index_coords)
    qed
  next
    fix i w assume i: "i < length (walls_by_index ?s)" "walls_by_index ?s ! i = Some w"
    then have l: "i < length (walls_by_index s)" by (cases "i < length (walls_by_index s)") (auto simp add: nth_append)
    with i have "walls_by_index s ! i = Some w" by (simp add: nth_append)
    from fresh_walls_Some[OF f l this]
    show "present W H ((i div 2) mod W) ((i div 2) div W) (even i) \<and>
            wall_x w = (i div 2) mod W \<and> wall_y w = (i div 2) div W \<and> dr w = even i \<and>
            wall_typ w = 0 \<and> \<not> clr w \<and> i \<in> set (wall_queues ?s ! 0)" by simp
  qed
  with a len show ?thesis by simp
next
  case True
  let ?w = "\<lparr>wall_x = x, wall_y = y, dr = d, wall_typ = 0, clr = False\<rparr>"
  let ?r = "length (walls_by_index s)"
  let ?k = "g 0 mod (length (wall_queues s ! 0) + 1)"
  let ?q = "take ?k (wall_queues s ! 0) @ ?r # drop ?k (wall_queues s ! 0)"
  let ?s = "s\<lparr>walls_by_index := walls_by_index s @ [Some ?w], wall_queues := (wall_queues s)[0 := ?q]\<rparr>"
  from f have q9: "length (wall_queues s) = 9" by (simp add: fresh_walls_def)
  from q9 have qne: "wall_queues s \<noteq> []" by auto
  have a: "add_wall p x y d (s, g) = ret (?s, advance g)"
    using True qne by (simp add: add_wall_def Let_def push_rand_ret)
  have setq: "set ?q = insert ?r (set (wall_queues s ! 0))"
  proof -
    have "set (take ?k (wall_queues s ! 0)) \<union> set (drop ?k (wall_queues s ! 0)) = set (wall_queues s ! 0)"
      by (metis append_take_drop_id set_append)
    then show ?thesis by auto
  qed
  have q0: "wall_queues ?s ! 0 = ?q" using q9 by simp
  have "fresh_walls W H ?s"
  proof (rule fresh_wallsI)
    show "union_find ?s = []" "length (wall_queues ?s) = 9" using f by (simp_all add: fresh_walls_def)
  next
    fix i assume i: "i < length (walls_by_index ?s)" "walls_by_index ?s ! i = None"
    then have l: "i < length (walls_by_index s)" by (cases "i < length (walls_by_index s)") (auto simp add: nth_append)
    with i have "walls_by_index s ! i = None" by (simp add: nth_append)
    from fresh_walls_None[OF f l this]
    show "\<not> present W H ((i div 2) mod W) ((i div 2) div W) (even i)" .
  next
    fix i w assume i: "i < length (walls_by_index ?s)" "walls_by_index ?s ! i = Some w"
    show "present W H ((i div 2) mod W) ((i div 2) div W) (even i) \<and>
            wall_x w = (i div 2) mod W \<and> wall_y w = (i div 2) div W \<and> dr w = even i \<and>
            wall_typ w = 0 \<and> \<not> clr w \<and> i \<in> set (wall_queues ?s ! 0)"
    proof (cases "i < length (walls_by_index s)")
      case l: True
      with i have "walls_by_index s ! i = Some w" by (simp add: nth_append)
      from fresh_walls_Some[OF f l this] show ?thesis unfolding q0 setq by simp
    next
      case False
      with i have ir: "i = ?r" by simp
      with i(2) have "w = ?w" by (simp add: nth_append)
      with ir len have ii: "i = wall_index W x y d" "i = ?r" "w = ?w" by simp_all
      have "i \<in> set (wall_queues ?s ! 0)" unfolding q0 setq using ii(2) by simp
      with ii(1,3) True p x show ?thesis by (simp add: wall_index_coords)
    qed
  qed
  with a len show ?thesis by simp
qed

lemma init_cell_correct:
  assumes f: "fresh_walls W H s" and len: "length (walls_by_index s) = 2 * (y * W + x)"
    and x: "x < W" and y: "y < H"
  shows "\<exists>s' g'. init_cell W H y x (s, g) = ret (s', g') \<and> fresh_walls W H s' \<and>
           length (walls_by_index s') = 2 * (y * W + Suc x) \<and>
           start_x s' = start_x s \<and> finish_x s' = finish_x s"
proof -
  have p1: "(int x < int W - 1) \<longleftrightarrow> present W H x y True" using x y by (auto simp add: present_def)
  have p2: "(int y < int H - 1) \<longleftrightarrow> present W H x y False" using x y by (auto simp add: present_def)
  have l1: "length (walls_by_index s) = wall_index W x y True" using len by (simp add: wall_index_def)
  from add_wall_correct[OF f l1 x p1, of g] obtain s1 g1 where
    1: "add_wall (int x < int W - 1) x y True (s, g) = ret (s1, g1)" "fresh_walls W H s1"
    "length (walls_by_index s1) = Suc (wall_index W x y True)"
    "start_x s1 = start_x s" "finish_x s1 = finish_x s" by blast
  have l2: "length (walls_by_index s1) = wall_index W x y False" using 1(3) by (simp add: wall_index_def)
  from add_wall_correct[OF 1(2) l2 x p2, of g1] obtain s2 g2 where
    2: "add_wall (int y < int H - 1) x y False (s1, g1) = ret (s2, g2)" "fresh_walls W H s2"
    "length (walls_by_index s2) = Suc (wall_index W x y False)"
    "start_x s2 = start_x s1" "finish_x s2 = finish_x s1" by blast
  have "init_cell W H y x (s, g) = ret (s2, g2)" using 1(1) 2(1) by (simp add: init_cell_def)
  moreover have "length (walls_by_index s2) = 2 * (y * W + Suc x)" using 2(3) by (simp add: wall_index_def)
  ultimately show ?thesis using 1(4,5) 2(2,4,5) by auto
qed

lemma init_row_correct:
  assumes f: "fresh_walls W H s" and len: "length (walls_by_index s) = 2 * (y * W)" and y: "y < H"
  shows "\<exists>s' g'. for_each (init_cell W H y) [0..<W] (s, g) = ret (s', g') \<and> fresh_walls W H s' \<and>
           length (walls_by_index s') = 2 * (Suc y * W) \<and>
           start_x s' = start_x s \<and> finish_x s' = finish_x s"
proof -
  let ?I = "\<lambda>x (st :: maze \<times> rng). fresh_walls W H (fst st) \<and>
      length (walls_by_index (fst st)) = 2 * (y * W + x) \<and>
      start_x (fst st) = start_x s \<and> finish_x (fst st) = finish_x s"
  have "\<exists>st'. for_each (init_cell W H y) [0..<W] (s, g) = ret st' \<and> ?I W st'"
  proof (rule for_each_upt[where I = ?I])
    show "?I 0 (s, g)" using f len by simp
  next
    fix x and st :: "maze \<times> rng" assume x: "x < W" and I: "?I x st"
    obtain s1 g1 where st: "st = (s1, g1)" by (cases st)
    from I st have "fresh_walls W H s1" "length (walls_by_index s1) = 2 * (y * W + x)" by simp_all
    from init_cell_correct[OF this x y, of g1] I st
    show "\<exists>st'. init_cell W H y x st = ret st' \<and> ?I (Suc x) st'" by auto
  qed
  then show ?thesis by (auto simp add: algebra_simps)
qed

lemma init_rows_correct:
  assumes f: "fresh_walls W H s" and len: "length (walls_by_index s) = 0"
  shows "\<exists>s' g'. for_each (\<lambda>y. for_each (init_cell W H y) [0..<W]) [0..<H] (s, g) = ret (s', g') \<and>
           fresh_walls W H s' \<and> length (walls_by_index s') = 2 * W * H \<and>
           start_x s' = start_x s \<and> finish_x s' = finish_x s"
proof -
  let ?I = "\<lambda>y (st :: maze \<times> rng). fresh_walls W H (fst st) \<and>
      length (walls_by_index (fst st)) = 2 * (y * W) \<and>
      start_x (fst st) = start_x s \<and> finish_x (fst st) = finish_x s"
  have "\<exists>st'. for_each (\<lambda>y. for_each (init_cell W H y) [0..<W]) [0..<H] (s, g) = ret st' \<and> ?I H st'"
  proof (rule for_each_upt[where I = ?I])
    show "?I 0 (s, g)" using f len by simp
  next
    fix y and st :: "maze \<times> rng" assume y: "y < H" and I: "?I y st"
    obtain s1 g1 where st: "st = (s1, g1)" by (cases st)
    from I st have "fresh_walls W H s1" "length (walls_by_index s1) = 2 * (y * W)" by simp_all
    from init_row_correct[OF this y, of g1] I st
    show "\<exists>st'. for_each (init_cell W H y) [0..<W] st = ret st' \<and> ?I (Suc y) st'" by auto
  qed
  then show ?thesis by (auto simp add: algebra_simps)
qed

lemma uf_inv_empty: "uf_inv []"
  by (simp add: uf_inv_def rooted_def)

lemma fresh_maze_inv:
  assumes f: "fresh_walls W H s" and len: "length (walls_by_index s) = 2 * W * H"
  shows "maze_inv W H s {}"
proof -
  let ?ws = "walls_by_index s"
  from f have uf: "union_find s = []" and q9: "length (wall_queues s) = 9"
    by (simp_all add: fresh_walls_def)
  have wf: "walls_wf W H ?ws"
    unfolding walls_wf_def
  proof (intro conjI allI impI)
    fix x y d assume xy: "x < W" "y < H"
    let ?i = "wall_index W x y d"
    have i: "?i < length ?ws" using wall_index_less[OF xy, of d] len by simp
    note c = wall_index_coords[OF xy(1), of y d]
    show "case ?ws ! ?i of
          None \<Rightarrow> \<not> present W H x y d
        | Some w \<Rightarrow> present W H x y d \<and> wall_x w = x \<and> wall_y w = y \<and> dr w = d"
    proof (cases "?ws ! ?i")
      case None
      from fresh_walls_None[OF f i None] None show ?thesis by (simp add: c)
    next
      case (Some w)
      from fresh_walls_Some[OF f i Some] Some show ?thesis by (simp add: c)
    qed
  qed (rule len)
  have k: "kruskal_inv W s {}"
  proof (rule kruskal_invI)
    fix i v assume i: "i < length ?ws" "?ws ! i = Some v"
    from fresh_walls_Some[OF f i] q9
    show "(clr v \<longrightarrow> joined (union_find s) W v) \<and>
         (i \<in> {} \<or> joined (union_find s) W v \<or>
          (wall_typ v < length (wall_queues s) \<and> i \<in> set (wall_queues s ! wall_typ v)))"
      by simp
  qed
  have "\<not> removed v" if "v \<in> set ?ws" for v
  proof (cases v)
    case None
    then show ?thesis by (simp add: removed_def)
  next
    case (Some w)
    from that obtain i where i: "i < length ?ws" "?ws ! i = v" by (auto simp add: in_set_conv_nth)
    with Some fresh_walls_Some[OF f i(1), of w] show ?thesis by (simp add: removed_def)
  qed
  then have nr: "filter removed ?ws = []" by (simp add: filter_empty_conv)
  have "rep [] c = c" for c by (simp add: rep_out_of_range)
  then have "rep (union_find s) ` {..<W * H} = {..<W * H}" using uf by simp
  with nr have cnt: "count_inv W H s" by (simp add: count_inv_def)
  from q9 wf uf k cnt show ?thesis by (simp add: maze_inv_def uf_inv_empty)
qed

lemma init_correct:
  assumes W: "0 < W"
  shows "\<exists>s' g'. init W H (s, g) = ret (s', g') \<and> maze_inv W H s' {} \<and> fresh_walls W H s' \<and>
           start_x s' = g 0 mod W \<and> finish_x s' = g 1 mod W"
proof -
  let ?g2 = "advance (advance g)"
  let ?s0 = "s\<lparr>union_find := [], wall_queues := replicate 9 [], walls_by_index := [],
            start_x := g 0 mod W, finish_x := advance g 0 mod W\<rparr>"
  have i: "init W H (s, g) =
      for_each (\<lambda>y. for_each (init_cell W H y) [0..<W]) [0..<H] (?s0, ?g2)"
    using W by (simp add: init_def rand_int_ret)
  have f0: "fresh_walls W H ?s0" by (simp add: fresh_walls_def)
  from init_rows_correct[OF f0, of ?g2] obtain s' g' where
    r: "for_each (\<lambda>y. for_each (init_cell W H y) [0..<W]) [0..<H] (?s0, ?g2) = ret (s', g')"
    "fresh_walls W H s'" "length (walls_by_index s') = 2 * W * H"
    "start_x s' = start_x ?s0" "finish_x s' = finish_x ?s0" by auto
  from fresh_maze_inv[OF r(2,3)] i r show ?thesis by (auto simp add: advance_def)
qed

subsection \<open>The finished maze\<close>

lemma done_all_joined:
  assumes inv: "maze_inv W H s {}" and empty: "\<forall>i<9. wall_queues s ! i = []"
    and i: "i < length (walls_by_index s)" "walls_by_index s ! i = Some v"
  shows "joined (union_find s) W v"
proof -
  from inv have q9: "length (wall_queues s) = 9" and k: "kruskal_inv W s {}"
    by (simp_all add: maze_inv_def)
  from kruskal_wall[OF k i] have "joined (union_find s) W v \<or>
      (wall_typ v < 9 \<and> i \<in> set (wall_queues s ! wall_typ v))" using q9 by simp
  with empty show ?thesis by auto
qed

lemma done_neighbours:
  assumes inv: "maze_inv W H s {}" and empty: "\<forall>i<9. wall_queues s ! i = []"
    and xy: "x < W" "y < H"
  shows "x + 1 < W \<Longrightarrow> rep (union_find s) (y * W + x) = rep (union_find s) (y * W + x + 1)"
    and "y + 1 < H \<Longrightarrow> rep (union_find s) (y * W + x) = rep (union_find s) (y * W + x + W)"
proof -
  from inv have wf: "walls_wf W H (walls_by_index s)" by (simp add: maze_inv_def)
  have w: "\<exists>v. walls_by_index s ! wall_index W x y d = Some v \<and> wall_x v = x \<and> wall_y v = y \<and> dr v = d"
    if "present W H x y d" for d
  proof -
    from wf xy have "case walls_by_index s ! wall_index W x y d of
          None \<Rightarrow> \<not> present W H x y d
        | Some w \<Rightarrow> present W H x y d \<and> wall_x w = x \<and> wall_y w = y \<and> dr w = d"
      by (simp add: walls_wf_def)
    with that show ?thesis by (cases "walls_by_index s ! wall_index W x y d") simp_all
  qed
  have l: "wall_index W x y d < length (walls_by_index s)" for d
    using wall_index_less[OF xy, of d] wf by (simp add: walls_wf_def)
  {
    assume "x + 1 < W"
    with xy have "present W H x y True" by (simp add: present_def)
    from w[OF this] obtain v where v: "walls_by_index s ! wall_index W x y True = Some v"
      "wall_x v = x" "wall_y v = y" "dr v = True" by blast
    from done_all_joined[OF inv empty l v(1)] v(2,3,4)
    show "rep (union_find s) (y * W + x) = rep (union_find s) (y * W + x + 1)"
      by (simp add: joined_def)
  }
  {
    assume "y + 1 < H"
    with xy have "present W H x y False" by (simp add: present_def)
    from w[OF this] obtain v where v: "walls_by_index s ! wall_index W x y False = Some v"
      "wall_x v = x" "wall_y v = y" "dr v = False" by blast
    from done_all_joined[OF inv empty l v(1)] v(2,3,4)
    show "rep (union_find s) (y * W + x) = rep (union_find s) (y * W + x + W)"
      by (simp add: joined_def)
  }
qed

lemma done_connected:
  assumes inv: "maze_inv W H s {}" and empty: "\<forall>i<9. wall_queues s ! i = []"
    and c: "c < W * H"
  shows "rep (union_find s) c = rep (union_find s) 0"
proof -
  let ?rep = "rep (union_find s)"
  have row: "x < W \<Longrightarrow> ?rep (y * W + x) = ?rep (y * W)" if y: "y < H" for x y
  proof (induction x)
    case 0
    show ?case by simp
  next
    case (Suc x)
    then have x: "x < W" "x + 1 < W" by simp_all
    from done_neighbours(1)[OF inv empty x(1) y x(2)] Suc.IH x(1)
    show ?case by simp
  qed
  have col: "y < H \<Longrightarrow> ?rep (y * W) = ?rep 0" for y
  proof (induction y)
    case 0
    show ?case by simp
  next
    case (Suc y)
    then have y: "y < H" "y + 1 < H" by simp_all
    from c have W: "0 < W" by (cases W) auto
    from done_neighbours(2)[OF inv empty W y(1) y(2)] Suc.IH y(1)
    show ?case by (simp add: add.commute)
  qed
  from c have W: "0 < W" by (cases W) auto
  have y: "c div W < H" using c by (simp add: less_mult_imp_div_less mult.commute)
  have x: "c mod W < W" using W by simp
  have "?rep c = ?rep ((c div W) * W + c mod W)" by simp
  also have "\<dots> = ?rep ((c div W) * W)" by (rule row[OF y x])
  also have "\<dots> = ?rep 0" by (rule col[OF y])
  finally show ?thesis .
qed

lemma done_spanning:
  assumes inv: "maze_inv W H s {}" and empty: "\<forall>i<9. wall_queues s ! i = []"
    and pos: "0 < W" "0 < H"
  shows "length (filter removed (walls_by_index s)) = W * H - 1"
proof -
  from pos have N: "0 < W * H" by simp
  have "rep (union_find s) ` {..<W * H} = {rep (union_find s) 0}"
  proof (intro equalityI subsetI)
    fix r assume "r \<in> rep (union_find s) ` {..<W * H}"
    then obtain c where "c < W * H" "r = rep (union_find s) c" by auto
    with done_connected[OF inv empty this(1)] show "r \<in> {rep (union_find s) 0}" by simp
  next
    fix r assume "r \<in> {rep (union_find s) 0}"
    with N show "r \<in> rep (union_find s) ` {..<W * H}" by auto
  qed
  then have "card (rep (union_find s) ` {..<W * H}) = 1" by simp
  moreover from inv have "count_inv W H s" by (simp add: maze_inv_def)
  ultimately show ?thesis by (simp add: count_inv_def)
qed


subsection \<open>Reaching the end by single steps\<close>




subsection \<open>Evaluation on the 2 by 1 grid\<close>

lemma advance_zero_draws: "advance zero_draws = zero_draws"
  by (simp add: advance_def)

lemma random_random_zero_draws: "random_random zero_draws = (0, zero_draws)"
  by (simp add: random_random_def advance_zero_draws)

lemma select_queue_first:
  "qs ! 0 \<noteq> [] \<Longrightarrow> select_queue qs [0..<9] 0 = 0"
  using queue_weight_pos_iff[of 0 qs] by (simp add: upt_conv_Cons)

lemma total_weight_first:
  assumes "qs ! 0 \<noteq> []"
  shows "\<not> total_weight qs \<le> 0"
proof -
  from assms have ne: "\<not> (\<forall>i<9. qs ! i = [])" by (metis zero_less_numeral)
  show ?thesis unfolding total_weight_le_0_iff by (fact ne)
qed

lemma init_2x1: "init 2 1 (blank_maze, zero_draws) = ret (fresh_2x1, zero_draws)"
  by (simp add: init_def rand_int_def init_cell_def add_wall_def push_rand_def advance_zero_draws
      numeral_eq_Suc upt_rec Let_def)

lemma union_uf_first: "union_uf [] 0 (Suc 0) = ret (True, [1, - 2])"
  by (simp add: union_uf_def ufind_def grow_def find_root.simps compress.simps Let_def)

lemma try_wall_2x1:
  "try_wall 2 (Suc 0) 0 (fresh_2x1\<lparr>wall_queues := [[], [], [], [], [], [], [], [], []]\<rparr>, zero_draws) =
   ret (True, done_2x1, zero_draws)"
  by (simp add: try_wall_def deref_def union_uf_first update_neighbour_def get_neighbour_def
      HORIZONTAL_OFFSETS_def get_wall_def Let_def upt_conv_Cons)

lemma step_2x1_first: "step 2 1 (fresh_2x1, zero_draws) = ret (True, done_2x1, zero_draws)"
proof -
  have tw: "\<not> total_weight [[0], [], [], [], [], [], [], [], []] \<le> 0"
    by (rule total_weight_first) simp
  have sel: "select_queue [[0], [], [], [], [], [], [], [], []] [0..<9] 0 = 0"
    by (rule select_queue_first) simp
  from try_wall_2x1 show ?thesis
    by (simp add: step_def tw random_random_zero_draws sel deref_def Let_def)
qed

lemma all_queues_empty: "i < 9 \<Longrightarrow> [[], [], [], [], [], [], [], [], []] ! i = ([] :: nat list)"
proof -
  assume "i < 9"
  then have "i \<in> {0, 1, 2, 3, 4, 5, 6, 7, 8}" by auto
  then show ?thesis by auto
qed

lemma step_2x1_second: "step 2 1 (done_2x1, zero_draws) = ret (False, done_2x1, zero_draws)"
  by (rule step_done) (simp_all add: total_weight_le_0_iff all_queues_empty)

lemma steps_2x1: "steps 2 1 2 (fresh_2x1, zero_draws) = ret (False, done_2x1, zero_draws)"
proof -
  have "steps 2 1 (Suc (Suc 0)) (fresh_2x1, zero_draws) = ret (False, done_2x1, zero_draws)"
    using step_2x1_first step_2x1_second by simp
  then show ?thesis by (simp add: numeral_2_eq_2)
qed

subsection \<open>Completion and acyclicity\<close>

text \<open>
  C1. On a grid with at least one column and one row, once a call of \<^verbatim>\<open>step\<close> after
  \<^verbatim>\<open>init\<close> has returned False, the test \<^verbatim>\<open>ufind(a) == ufind(b)\<close> succeeds for all
  cells \<open>a\<close> and \<open>b\<close> of the grid, and exactly \<open>W * H - 1\<close> walls have \<^verbatim>\<open>clr\<close> set.
\<close>

theorem generation_spanning_tree:
  assumes "0 < W" "0 < H"
    and "init W H (s, g) = ret (s0, g0)"
    and "steps W H n (s0, g0) = ret (False, s', g')"
  shows "(\<forall>a<W * H. \<forall>b<W * H. same_component (union_find s') a b = ret True) \<and>
         length (filter removed (walls_by_index s')) = W * H - 1"
proof -
  from init_correct[OF assms(1), of H s g] assms(3) have inv0: "maze_inv W H s0 {}" by auto
  from steps_correct[OF inv0, of n g0] assms(4)
  have inv: "maze_inv W H s' {}" and empty: "\<forall>i<9. wall_queues s' ! i = []" by auto
  from inv have ufi: "uf_inv (union_find s')" by (simp add: maze_inv_def)
  have "same_component (union_find s') a b = ret True" if "a < W * H" "b < W * H" for a b
    using done_connected[OF inv empty that(1)] done_connected[OF inv empty that(2)]
    by (simp add: same_component_rep[OF ufi])
  with done_spanning[OF inv empty assms(1,2)] show ?thesis by simp
qed

theorem generation_spanning_tree_witness:
  "init 2 1 (blank_maze, zero_draws) = ret (fresh_2x1, zero_draws) \<and>
   steps 2 1 2 (fresh_2x1, zero_draws) = ret (False, done_2x1, zero_draws) \<and>
   same_component (union_find done_2x1) 0 1 = ret True \<and>
   length (filter removed (walls_by_index done_2x1)) = 2 * 1 - 1"
proof -
  have p: "(0::nat) < 2" "(0::nat) < 1" by simp_all
  from generation_spanning_tree[OF p init_2x1 steps_2x1]
  have "same_component (union_find done_2x1) 0 1 = ret True"
    and "length (filter removed (walls_by_index done_2x1)) = 2 * 1 - 1" by simp_all
  with init_2x1 steps_2x1 show ?thesis by simp
qed

subsection \<open>Termination\<close>



subsection \<open>Determinism\<close>

lemma init_ignores_state: "init W H (s1, g) = init W H (s2, g)"
proof -
  have "s1\<lparr>union_find := [], wall_queues := replicate 9 [], walls_by_index := [],
            start_x := sx, finish_x := fx\<rparr> =
        s2\<lparr>union_find := [], wall_queues := replicate 9 [], walls_by_index := [],
            start_x := sx, finish_x := fx\<rparr>" for sx fx
    by (cases s1, cases s2) simp
  then show ?thesis unfolding init_def prod.case by (simp only:)
qed

text \<open>
  C9. The random source is the only input of a run besides the dimensions: whatever the
  globals hold when \<^verbatim>\<open>init\<close> is called, the same source and dimensions give the same
  result of \<^verbatim>\<open>init\<close> (entrance and exit columns, queues, walls), and the same result,
  state and remaining source after every number of calls of \<^verbatim>\<open>step\<close>; so the wall flags
  change at the same calls and the walls are opened in the same order.
\<close>

theorem same_seed_same_run:
  "init W H (s1, g) = init W H (s2, g) \<and>
   and_then (init W H (s1, g)) (steps W H n) = and_then (init W H (s2, g)) (steps W H n)"
  using init_ignores_state[of W H s1 g s2] by simp

subsection \<open>Removed walls and stale queue entries\<close>

text \<open>
  C7. \<^verbatim>\<open>try_wall\<close> on a wall whose \<^verbatim>\<open>clr\<close> flag is set returns False and the state
  (walls, queues, union-find list) and the random source are unchanged. A call of
  \<^verbatim>\<open>step\<close> that pops a reference to a wall whose stored type differs from the index of
  the selected queue (or whose \<^verbatim>\<open>clr\<close> flag is set) returns True, and the state differs
  from the one before only in that the selected queue lost its last entry.
\<close>

theorem removed_and_stale_are_noops:
  "(deref (walls_by_index s) r = Some w \<and> clr w \<longrightarrow> try_wall W H r (s, g) = ret (False, s, g)) \<and>
   (9 \<le> length (wall_queues s) \<and> \<not> total_weight (wall_queues s) \<le> 0 \<and>
    queue_index = select_queue (wall_queues s) [0..<9]
                    (total_weight (wall_queues s) * fst (random_random g)) \<and>
    wall_queues s ! queue_index \<noteq> [] \<and>
    deref (walls_by_index s) (last (wall_queues s ! queue_index)) = Some v \<and>
    (wall_typ v \<noteq> queue_index \<or> clr v) \<longrightarrow>
    step W H (s, g) =
      ret (True, s\<lparr>wall_queues := (wall_queues s)[queue_index := butlast (wall_queues s ! queue_index)]\<rparr>,
           snd (random_random g)))"
proof (intro conjI impI)
  assume "deref (walls_by_index s) r = Some w \<and> clr w"
  then show "try_wall W H r (s, g) = ret (False, s, g)" by (simp add: try_wall_def)
next
  let ?qs = "wall_queues s"
  let ?s1 = "s\<lparr>wall_queues := ?qs[queue_index := butlast (?qs ! queue_index)]\<rparr>"
  assume a: "9 \<le> length ?qs \<and> \<not> total_weight ?qs \<le> 0 \<and>
    queue_index = select_queue ?qs [0..<9] (total_weight ?qs * fst (random_random g)) \<and>
    ?qs ! queue_index \<noteq> [] \<and>
    deref (walls_by_index s) (last (?qs ! queue_index)) = Some v \<and>
    (wall_typ v \<noteq> queue_index \<or> clr v)"
  then have a1: "9 \<le> length ?qs" and a2: "\<not> total_weight ?qs \<le> 0"
    and a3: "select_queue ?qs [0..<9] (total_weight ?qs * fst (random_random g)) = queue_index"
    and a4: "?qs ! queue_index \<noteq> []"
    and a5: "deref (walls_by_index s) (last (?qs ! queue_index)) = Some v"
    and a6: "wall_typ v \<noteq> queue_index \<or> clr v" by blast+
  from a5 have d: "deref (walls_by_index ?s1) (last (?qs ! queue_index)) = Some v" by simp
  have t: "clr v \<Longrightarrow> try_wall W H (last (?qs ! queue_index)) (?s1, snd (random_random g)) =
      ret (False, ?s1, snd (random_random g))"
    using d by (simp add: try_wall_def)
  from a1 a2 a4 d have st: "step W H (s, g) =
      (if wall_typ v = queue_index
       then and_then (try_wall W H (last (?qs ! queue_index)) (?s1, snd (random_random g)))
              (\<lambda>(opened, s2, g2). ret (True, s2, g2))
       else ret (True, ?s1, snd (random_random g)))"
    by (simp add: step_def Let_def case_prod_unfold a3)
  show "step W H (s, g) = ret (True, ?s1, snd (random_random g))"
  proof (cases "wall_typ v = queue_index")
    case True
    with a6 have "clr v" by simp
    from t[OF this] st True show ?thesis by simp
  next
    case False
    with st show ?thesis by simp
  qed
qed

theorem removed_and_stale_are_noops_witness:
  "try_wall 2 1 0 (stale_2x1, zero_draws) = ret (False, stale_2x1, zero_draws) \<and>
   step 2 1 (stale_2x1, zero_draws) =
     ret (True, stale_2x1\<lparr>wall_queues := [[], [], [], [], [], [], [], [], []]\<rparr>, zero_draws)"
proof -
  have tw: "\<not> total_weight [[0], [], [], [], [], [], [], [], []] \<le> 0"
    by (rule total_weight_first) simp
  have sel: "select_queue [[0], [], [], [], [], [], [], [], []] [0..<9] 0 = 0"
    by (rule select_queue_first) simp
  from removed_and_stale_are_noops[of stale_2x1 0
      "\<lparr>wall_x = 0, wall_y = 0, dr = True, wall_typ = 3, clr = True\<rparr>" 2 1 zero_draws 0
      "\<lparr>wall_x = 0, wall_y = 0, dr = True, wall_typ = 3, clr = True\<rparr>"]
  show ?thesis
    by (simp add: deref_def tw sel random_random_zero_draws)
qed

subsection \<open>Wall types only grow\<close>

lemma steps_types_grow:
  assumes inv: "maze_inv W H s {}"
  shows "\<exists>res s' g'. steps W H n (s, g) = ret (res, s', g') \<and>
           (\<forall>i v. deref (walls_by_index s) i = Some v \<longrightarrow>
              (\<exists>v'. deref (walls_by_index s') i = Some v' \<and> wall_typ v \<le> wall_typ v'))"
proof -
  from steps_correct[OF inv, of n g] obtain res s' g' where
    st: "steps W H n (s, g) = ret (res, s', g')" and adv: "advances s s'" by blast
  have "\<exists>v'. deref (walls_by_index s') i = Some v' \<and> wall_typ v \<le> wall_typ v'"
    if "deref (walls_by_index s) i = Some v" for i v
  proof -
    from that have i: "i < length (walls_by_index s)" "walls_by_index s ! i = Some v"
      by (auto simp add: deref_def split: if_splits)
    from adv i(1) have "i < length (walls_by_index s')" by (simp add: advances_def)
    with advances_wall[OF adv i] show ?thesis by (auto simp add: deref_def)
  qed
  with st show ?thesis by blast
qed

text \<open>
  C8. \<^verbatim>\<open>update_wall_type\<close> computes \<open>t1 * 3 + t2\<close> from the end types of the two
  neighbour triples. If that exceeds the stored type, the wall gets the new type and one
  reference to it is inserted into the queue of the new type, at the position
  \<^verbatim>\<open>rand_int(len + 1)\<close> draws (from 0 to the length of the queue); nothing else changes.
  Otherwise state and random source are unchanged. After any number of calls of
  \<^verbatim>\<open>step\<close> from a state that satisfies the generator invariant, every wall is still there
  and its type is at least what it was.
\<close>

theorem wall_type_monotone:
  "(length (walls_by_index s) = 2 * W * H \<and> 9 \<le> length (wall_queues s) \<and>
    deref (walls_by_index s) r = Some w \<longrightarrow>
      (\<exists>t1 t2. end_type_from W H (walls_by_index s) w 0 = ret t1 \<and>
           end_type_from W H (walls_by_index s) w 3 = ret t2 \<and> t1 \<le> 2 \<and> t2 \<le> 2 \<and>
           update_wall_type W H r (s, g) =
             ret (if wall_typ w < t1 * 3 + t2 then
                    (s\<lparr>walls_by_index := (walls_by_index s)[r := Some (w\<lparr>wall_typ := t1 * 3 + t2\<rparr>)],
                       wall_queues := (wall_queues s)[t1 * 3 + t2 :=
                         take (g 0 mod (length (wall_queues s ! (t1 * 3 + t2)) + 1)) (wall_queues s ! (t1 * 3 + t2))
                         @ r # drop (g 0 mod (length (wall_queues s ! (t1 * 3 + t2)) + 1)) (wall_queues s ! (t1 * 3 + t2))]\<rparr>,
                     advance g)
                  else (s, g)))) \<and>
   (maze_inv W H s0 {} \<longrightarrow>
      (\<forall>n. \<exists>res s' g'. steps W H n (s0, g0) = ret (res, s', g') \<and>
           (\<forall>i v. deref (walls_by_index s0) i = Some v \<longrightarrow>
              (\<exists>v'. deref (walls_by_index s') i = Some v' \<and> wall_typ v \<le> wall_typ v'))))"
proof (intro conjI impI allI)
  assume "length (walls_by_index s) = 2 * W * H \<and> 9 \<le> length (wall_queues s) \<and>
    deref (walls_by_index s) r = Some w"
  then have a: "length (walls_by_index s) = 2 * W * H" "9 \<le> length (wall_queues s)"
    "deref (walls_by_index s) r = Some w" by simp_all
  show "\<exists>t1 t2. end_type_from W H (walls_by_index s) w 0 = ret t1 \<and>
           end_type_from W H (walls_by_index s) w 3 = ret t2 \<and> t1 \<le> 2 \<and> t2 \<le> 2 \<and>
           update_wall_type W H r (s, g) =
             ret (if wall_typ w < t1 * 3 + t2 then
                    (s\<lparr>walls_by_index := (walls_by_index s)[r := Some (w\<lparr>wall_typ := t1 * 3 + t2\<rparr>)],
                       wall_queues := (wall_queues s)[t1 * 3 + t2 :=
                         take (g 0 mod (length (wall_queues s ! (t1 * 3 + t2)) + 1)) (wall_queues s ! (t1 * 3 + t2))
                         @ r # drop (g 0 mod (length (wall_queues s ! (t1 * 3 + t2)) + 1)) (wall_queues s ! (t1 * 3 + t2))]\<rparr>,
                     advance g)
                  else (s, g))"
    by (rule update_wall_type_ret[OF a])
next
  fix n assume "maze_inv W H s0 {}"
  then show "\<exists>res s' g'. steps W H n (s0, g0) = ret (res, s', g') \<and>
           (\<forall>i v. deref (walls_by_index s0) i = Some v \<longrightarrow>
              (\<exists>v'. deref (walls_by_index s') i = Some v' \<and> wall_typ v \<le> wall_typ v'))"
    by (rule steps_types_grow)
qed

lemma end_types_open_2x2:
  "end_type_from 2 2 (walls_by_index open_2x2)
     \<lparr>wall_x = 0, wall_y = 0, dr = True, wall_typ = 0, clr = False\<rparr> 0 = ret 0"
  "end_type_from 2 2 (walls_by_index open_2x2)
     \<lparr>wall_x = 0, wall_y = 0, dr = True, wall_typ = 0, clr = False\<rparr> 3 = ret 1"
  by (simp_all add: end_type_from_def get_neighbour_def HORIZONTAL_OFFSETS_def get_wall_def
      get_wall_end_type_def removed_def wall_at_def deref_def Let_def)

lemma maze_inv_fresh_2x1: "maze_inv 2 1 fresh_2x1 {}"
  using init_correct[of 2 1 blank_maze zero_draws] init_2x1 by auto

theorem wall_type_monotone_witness:
  "update_wall_type 2 2 0 (open_2x2, zero_draws) =
     ret (open_2x2\<lparr>walls_by_index := (walls_by_index open_2x2)
                     [0 := Some \<lparr>wall_x = 0, wall_y = 0, dr = True, wall_typ = 1, clr = False\<rparr>],
                   wall_queues := [[3, 4, 0], [0], [], [], [], [], [], [], []]\<rparr>, zero_draws) \<and>
   maze_inv 2 1 fresh_2x1 {} \<and>
   (\<exists>v'. deref (walls_by_index done_2x1) 0 = Some v' \<and> 0 \<le> wall_typ v')"
proof -
  have a: "length (walls_by_index open_2x2) = 2 * 2 * 2 \<and> 9 \<le> length (wall_queues open_2x2) \<and>
    deref (walls_by_index open_2x2) 0 = Some \<lparr>wall_x = 0, wall_y = 0, dr = True, wall_typ = 0, clr = False\<rparr>"
    by (simp add: deref_def)
  from wall_type_monotone[where s = open_2x2 and W = 2 and H = 2 and r = 0 and g = zero_draws
      and w = "\<lparr>wall_x = 0, wall_y = 0, dr = True, wall_typ = 0, clr = False\<rparr>"] a
  have u: "\<exists>t1 t2. ret 0 = ret t1 \<and> ret 1 = ret t2 \<and> t1 \<le> 2 \<and> t2 \<le> 2 \<and>
           update_wall_type 2 2 0 (open_2x2, zero_draws) =
             ret (if 0 < t1 * 3 + t2 then
                    (open_2x2\<lparr>walls_by_index := (walls_by_index open_2x2)
                        [0 := Some (\<lparr>wall_x = 0, wall_y = 0, dr = True, wall_typ = 0, clr = False\<rparr>\<lparr>wall_typ := t1 * 3 + t2\<rparr>)],
                       wall_queues := (wall_queues open_2x2)[t1 * 3 + t2 :=
                         take (zero_draws 0 mod (length (wall_queues open_2x2 ! (t1 * 3 + t2)) + 1)) (wall_queues open_2x2 ! (t1 * 3 + t2))
                         @ 0 # drop (zero_draws 0 mod (length (wall_queues open_2x2 ! (t1 * 3 + t2)) + 1)) (wall_queues open_2x2 ! (t1 * 3 + t2))]\<rparr>,
                     advance zero_draws)
                  else (open_2x2, zero_draws))"
    unfolding end_types_open_2x2[symmetric] by simp
  from wall_type_monotone[where W = 2 and H = 1 and ?s0.0 = fresh_2x1 and ?g0.0 = zero_draws]
    maze_inv_fresh_2x1
  have m: "\<forall>n. \<exists>res s' g'. steps 2 1 n (fresh_2x1, zero_draws) = ret (res, s', g') \<and>
           (\<forall>i v. deref (walls_by_index fresh_2x1) i = Some v \<longrightarrow>
              (\<exists>v'. deref (walls_by_index s') i = Some v' \<and> wall_typ v \<le> wall_typ v'))"
    by blast
  from u have "update_wall_type 2 2 0 (open_2x2, zero_draws) =
     ret (open_2x2\<lparr>walls_by_index := (walls_by_index open_2x2)
                     [0 := Some \<lparr>wall_x = 0, wall_y = 0, dr = True, wall_typ = 1, clr = False\<rparr>],
                   wall_queues := [[3, 4, 0], [0], [], [], [], [], [], [], []]\<rparr>, zero_draws)"
    by (auto simp add: advance_zero_draws)
  moreover from m[rule_format, of 2] steps_2x1
  have "\<exists>v'. deref (walls_by_index done_2x1) 0 = Some v' \<and> 0 \<le> wall_typ v'"
    by (simp add: deref_def)
  ultimately show ?thesis using maze_inv_fresh_2x1 by blast
qed

subsection \<open>Directions of the solver and linked cells\<close>

lemma wall_open_removed: "wall_open ws (int i) \<longleftrightarrow> removed (deref ws i)"
  by (simp add: wall_open_def removed_def deref_def)

lemma target_cases:
  "target x y 0 = (int x, int y - 1)"
  "target x y (Suc 0) = (int x + 1, int y)"
  "target x y 2 = (int x - 1, int y)"
  "target x y 3 = (int x, int y + 1)"
  by (simp_all add: target_def)

lemma walldiff_cases:
  "walldiff W ! 0 = - int W * 2 + 1" "walldiff W ! Suc 0 = 0" "walldiff W ! 2 = - 2" "walldiff W ! 3 = 1"
  by (simp_all add: walldiff_def numeral_2_eq_2 numeral_3_eq_3)

lemma less_4_cases: "n < 4 \<Longrightarrow> n = 0 \<or> n = Suc 0 \<or> n = 2 \<or> n = (3::nat)"
  by arith

lemma direction_linked:
  assumes c: "x < W" "y < H" and n: "n < 4" and g: "in_grid W H (target x y n)"
  shows "wall_open ws (int ((y * W + x) * 2) + walldiff W ! n) \<longleftrightarrow>
         linked W H ws (x, y) (nat (fst (target x y n)), nat (snd (target x y n)))"
proof -
  from less_4_cases[OF n] consider "n = 0" | "n = Suc 0" | "n = 2" | "n = 3" by blast
  then show ?thesis
  proof cases
    case 1
    with g have y1: "1 \<le> y" by (simp add: target_cases in_grid_def)
    then obtain y' where y': "y = Suc y'" by (cases y) auto
    have "int ((y * W + x) * 2) + (- int W * 2 + 1) = int (wall_index W x y' False)"
      by (simp add: y' wall_index_def algebra_simps)
    then have "wall_open ws (int ((y * W + x) * 2) + walldiff W ! n) \<longleftrightarrow>
        removed (deref ws (wall_index W x y' False))"
      using 1 by (simp add: walldiff_cases wall_open_removed)
    moreover have "linked W H ws (x, y) (nat (fst (target x y n)), nat (snd (target x y n))) \<longleftrightarrow>
        removed (deref ws (wall_index W x y' False))"
      using 1 c y' by (auto simp add: linked_def target_cases)
    ultimately show ?thesis by simp
  next
    case 2
    with g have x1: "x + 1 < W" by (simp add: target_cases in_grid_def)
    have "int ((y * W + x) * 2) + 0 = int (wall_index W x y True)"
      by (simp add: wall_index_def)
    then have "wall_open ws (int ((y * W + x) * 2) + walldiff W ! n) \<longleftrightarrow>
        removed (deref ws (wall_index W x y True))"
      using 2 by (simp add: walldiff_cases wall_open_removed del: of_nat_mult of_nat_add)
    moreover have "linked W H ws (x, y) (nat (fst (target x y n)), nat (snd (target x y n))) \<longleftrightarrow>
        removed (deref ws (wall_index W x y True))"
      using 2 c x1 by (auto simp add: linked_def target_cases nat_add_distrib)
    ultimately show ?thesis by simp
  next
    case 3
    with g have x1: "1 \<le> x" by (simp add: target_cases in_grid_def)
    then obtain x' where x': "x = Suc x'" by (cases x) auto
    have "int ((y * W + x) * 2) + (- 2) = int (wall_index W x' y True)"
      by (simp add: x' wall_index_def algebra_simps)
    then have "wall_open ws (int ((y * W + x) * 2) + walldiff W ! n) \<longleftrightarrow>
        removed (deref ws (wall_index W x' y True))"
      using 3 by (simp add: walldiff_cases wall_open_removed)
    moreover have "linked W H ws (x, y) (nat (fst (target x y n)), nat (snd (target x y n))) \<longleftrightarrow>
        removed (deref ws (wall_index W x' y True))"
      using 3 c x' by (auto simp add: linked_def target_cases)
    ultimately show ?thesis by simp
  next
    case 4
    with g have y1: "y + 1 < H" by (simp add: target_cases in_grid_def)
    have "int ((y * W + x) * 2) + 1 = int (wall_index W x y False)"
      by (simp add: wall_index_def)
    then have "wall_open ws (int ((y * W + x) * 2) + walldiff W ! n) \<longleftrightarrow>
        removed (deref ws (wall_index W x y False))"
      using 4 by (simp add: walldiff_cases wall_open_removed del: of_nat_mult of_nat_add)
    moreover have "linked W H ws (x, y) (nat (fst (target x y n)), nat (snd (target x y n))) \<longleftrightarrow>
        removed (deref ws (wall_index W x y False))"
      using 4 c y1 by (auto simp add: linked_def target_cases nat_add_distrib)
    ultimately show ?thesis by simp
  qed
qed

lemma linked_direction:
  assumes l: "linked W H ws (x, y) b"
  shows "\<exists>n<4. in_grid W H (target x y n) \<and>
           b = (nat (fst (target x y n)), nat (snd (target x y n)))"
proof -
  from l have b: "fst b < W" "snd b < H" by (simp_all add: linked_def)
  from l consider "snd b = y \<and> fst b = x + 1" | "snd b = y \<and> x = fst b + 1"
    | "fst b = x \<and> snd b = y + 1" | "fst b = x \<and> y = snd b + 1"
    by (auto simp add: linked_def)
  then show ?thesis
  proof cases
    case 1
    with b have "in_grid W H (target x y (Suc 0)) \<and>
           b = (nat (fst (target x y (Suc 0))), nat (snd (target x y (Suc 0))))"
      by (cases b) (auto simp add: target_cases in_grid_def nat_add_distrib)
    then show ?thesis by (intro exI[of _ "Suc 0"]) simp
  next
    case 2
    with b have "in_grid W H (target x y 2) \<and>
           b = (nat (fst (target x y 2)), nat (snd (target x y 2)))"
      by (cases b) (auto simp add: target_cases in_grid_def)
    then show ?thesis by (intro exI[of _ 2]) simp
  next
    case 3
    with b have "in_grid W H (target x y 3) \<and>
           b = (nat (fst (target x y 3)), nat (snd (target x y 3)))"
      by (cases b) (auto simp add: target_cases in_grid_def nat_add_distrib)
    then show ?thesis by (intro exI[of _ 3]) simp
  next
    case 4
    with b have "in_grid W H (target x y 0) \<and>
           b = (nat (fst (target x y 0)), nat (snd (target x y 0)))"
      by (cases b) (auto simp add: target_cases in_grid_def)
    then show ?thesis by (intro exI[of _ 0]) simp
  qed
qed

lemma linked_sym: "linked W H ws a b \<Longrightarrow> linked W H ws b a"
  by (auto simp add: linked_def)

lemma linked_in_grid: "linked W H ws a b \<Longrightarrow> fst a < W \<and> snd a < H \<and> fst b < W \<and> snd b < H"
  by (simp add: linked_def)

subsection \<open>Reading and writing the depth table\<close>

lemma shape_update:
  assumes "shape W H st" "y < H"
  shows "shape W H (st[y := (st ! y)[x := v]])"
  using assms by (auto simp add: shape_def nth_list_update)

lemma depth_at_update:
  assumes "shape W H st" "x < W" "y < H" "snd c < H"
  shows "depth_at (st[y := (st ! y)[x := v]]) c = (if c = (x, y) then v else depth_at st c)"
  using assms by (cases c) (auto simp add: depth_at_def shape_def nth_list_update)

subsection \<open>One layer of the search\<close>

lemma fold_moves:
  "fold g (concat (map (\<lambda>c. map (Pair c) ns) level)) acc =
   fold (\<lambda>c. fold (\<lambda>n. g (c, n)) ns) level acc"
proof (induction level arbitrary: acc)
  case Nil
  show ?case by simp
next
  case (Cons c level)
  have "fold g (map (Pair c) ns) acc = fold (\<lambda>n. g (c, n)) ns acc"
    by (simp add: fold_map comp_def)
  with Cons.IH show ?case by simp
qed

lemma expand_moves:
  "expand W H ws depth level st = fold (\<lambda>m. visit W H ws depth (fst m) (snd m)) (moves level) (st, [])"
  unfolding expand_def moves_def fold_moves by simp

lemma visit_cases:
  "visit W H ws depth c n (st, level) =
     (if \<exists>t. reaches W H ws (c, n) t \<and> depth_at st t = 0
      then (st[nat (snd (target (fst c) (snd c) n)) :=
               (st ! nat (snd (target (fst c) (snd c) n)))[nat (fst (target (fst c) (snd c) n)) := depth]],
            level @ [(nat (fst (target (fst c) (snd c) n)), nat (snd (target (fst c) (snd c) n)))])
      else (st, level))"
  by (cases c) (auto simp add: visit_def reaches_def depth_at_def Let_def case_prod_unfold)

lemma reaches_in_grid: "reaches W H ws m t \<Longrightarrow> fst t < W \<and> snd t < H"
  by (auto simp add: reaches_def in_grid_def)

lemma fold_visit:
  assumes "shape W H st0" and "depth \<noteq> 0"
    and "fold (\<lambda>m. visit W H ws depth (fst m) (snd m)) ms (st0, lv0) = (st1, lv1)"
  shows "shape W H st1 \<and>
         (\<forall>t. snd t < H \<longrightarrow>
            depth_at st1 t = (if depth_at st0 t = 0 \<and> (\<exists>m\<in>set ms. reaches W H ws m t)
                              then depth else depth_at st0 t)) \<and>
         set lv1 = set lv0 \<union> {t. depth_at st0 t = 0 \<and> (\<exists>m\<in>set ms. reaches W H ws m t)}"
  using assms
proof (induction ms arbitrary: st0 lv0)
  case Nil
  then show ?case by auto
next
  case (Cons m ms)
  obtain c n where m: "m = (c, n)" by (cases m)
  let ?t = "(nat (fst (target (fst c) (snd c) n)), nat (snd (target (fst c) (snd c) n)))"
  show ?case
  proof (cases "\<exists>t. reaches W H ws (c, n) t \<and> depth_at st0 t = 0")
    case False
    then have v: "visit W H ws depth c n (st0, lv0) = (st0, lv0)" by (simp add: visit_cases)
    from Cons.prems(3) m v have f: "fold (\<lambda>m. visit W H ws depth (fst m) (snd m)) ms (st0, lv0) = (st1, lv1)"
      by simp
    note IH = Cons.IH[OF Cons.prems(1,2) f]
    from False have no: "\<And>t. reaches W H ws m t \<Longrightarrow> depth_at st0 t \<noteq> 0" using m by auto
    have "(depth_at st0 t = 0 \<and> (\<exists>m'\<in>set (m # ms). reaches W H ws m' t)) \<longleftrightarrow>
          (depth_at st0 t = 0 \<and> (\<exists>m'\<in>set ms. reaches W H ws m' t))" for t
      by (metis no set_ConsD list.set_intros(2))
    with IH show ?thesis by simp
  next
    case True
    then obtain t where t: "reaches W H ws (c, n) t" "depth_at st0 t = 0" by blast
    then have tt: "t = ?t" by (simp add: reaches_def)
    from reaches_in_grid[OF t(1)] have tg: "fst t < W" "snd t < H" by simp_all
    let ?st = "st0[snd t := (st0 ! snd t)[fst t := depth]]"
    from True have v: "visit W H ws depth c n (st0, lv0) = (?st, lv0 @ [t])"
      by (simp add: visit_cases tt)
    from Cons.prems(3) m v have f: "fold (\<lambda>m. visit W H ws depth (fst m) (snd m)) ms (?st, lv0 @ [t]) = (st1, lv1)"
      by simp
    have sh: "shape W H ?st" by (rule shape_update[OF Cons.prems(1) tg(2)])
    note IH = Cons.IH[OF sh Cons.prems(2) f]
    have d: "depth_at ?st u = (if u = t then depth else depth_at st0 u)" if "snd u < H" for u
      using depth_at_update[OF Cons.prems(1) tg that, of depth] by simp
    have only: "u = t" if "reaches W H ws m u" for u using that m tt by (simp add: reaches_def)
    from IH have ih: "\<And>u. snd u < H \<Longrightarrow> depth_at st1 u =
        (if depth_at ?st u = 0 \<and> (\<exists>m'\<in>set ms. reaches W H ws m' u) then depth else depth_at ?st u)"
      by blast
    have a: "depth_at st1 u = (if depth_at st0 u = 0 \<and> (\<exists>m'\<in>set (m # ms). reaches W H ws m' u)
                              then depth else depth_at st0 u)" if u: "snd u < H" for u
    proof (cases "u = t")
      case True
      from ih[OF u] d[OF u] True Cons.prems(2) have "depth_at st1 u = depth" by simp
      moreover from True t m have "depth_at st0 u = 0 \<and> (\<exists>m'\<in>set (m # ms). reaches W H ws m' u)"
        by simp
      ultimately show ?thesis by simp
    next
      case False
      with only have "\<not> reaches W H ws m u" by blast
      then have "(\<exists>m'\<in>set (m # ms). reaches W H ws m' u) \<longleftrightarrow> (\<exists>m'\<in>set ms. reaches W H ws m' u)"
        by simp
      with ih[OF u] d[OF u] False show ?thesis by simp
    qed
    have b: "set lv1 = set lv0 \<union> {u. depth_at st0 u = 0 \<and> (\<exists>m'\<in>set (m # ms). reaches W H ws m' u)}"
    proof -
      from IH have "set lv1 = set (lv0 @ [t]) \<union> {u. depth_at ?st u = 0 \<and> (\<exists>m'\<in>set ms. reaches W H ws m' u)}"
        by simp
      also have "{u. depth_at ?st u = 0 \<and> (\<exists>m'\<in>set ms. reaches W H ws m' u)} =
                 {u. u \<noteq> t \<and> depth_at st0 u = 0 \<and> (\<exists>m'\<in>set ms. reaches W H ws m' u)}"
        using d reaches_in_grid Cons.prems(2) by (auto split: if_splits)
      finally have l: "set lv1 = set (lv0 @ [t]) \<union>
          {u. u \<noteq> t \<and> depth_at st0 u = 0 \<and> (\<exists>m'\<in>set ms. reaches W H ws m' u)}" .
      have "{u. depth_at st0 u = 0 \<and> (\<exists>m'\<in>set (m # ms). reaches W H ws m' u)} =
            insert t {u. u \<noteq> t \<and> depth_at st0 u = 0 \<and> (\<exists>m'\<in>set ms. reaches W H ws m' u)}"
      proof (intro set_eqI iffI)
        fix u assume "u \<in> {u. depth_at st0 u = 0 \<and> (\<exists>m'\<in>set (m # ms). reaches W H ws m' u)}"
        then have u: "depth_at st0 u = 0" "reaches W H ws m u \<or> (\<exists>m'\<in>set ms. reaches W H ws m' u)"
          by simp_all
        show "u \<in> insert t {u. u \<noteq> t \<and> depth_at st0 u = 0 \<and> (\<exists>m'\<in>set ms. reaches W H ws m' u)}"
        proof (cases "u = t")
          case True
          then show ?thesis by simp
        next
          case False
          with only u(2) have "\<exists>m'\<in>set ms. reaches W H ws m' u" by blast
          with False u(1) show ?thesis by simp
        qed
      next
        fix u assume "u \<in> insert t {u. u \<noteq> t \<and> depth_at st0 u = 0 \<and> (\<exists>m'\<in>set ms. reaches W H ws m' u)}"
        then have "u = t \<or> (depth_at st0 u = 0 \<and> (\<exists>m'\<in>set ms. reaches W H ws m' u))" by blast
        then show "u \<in> {u. depth_at st0 u = 0 \<and> (\<exists>m'\<in>set (m # ms). reaches W H ws m' u)}"
        proof
          assume "u = t"
          with t m show ?thesis by simp
        next
          assume "depth_at st0 u = 0 \<and> (\<exists>m'\<in>set ms. reaches W H ws m' u)"
          then show ?thesis by simp
        qed
      qed
      with l show ?thesis by simp
    qed
    from IH a b show ?thesis by simp
  qed
qed

lemma reaches_linked:
  assumes c: "fst c < W" "snd c < H"
  shows "(\<exists>n<4. reaches W H ws (c, n) t) \<longleftrightarrow> linked W H ws c t"
proof
  assume "\<exists>n<4. reaches W H ws (c, n) t"
  then obtain n where n: "n < 4" and r: "reaches W H ws (c, n) t" by blast
  from r have g: "in_grid W H (target (fst c) (snd c) n)"
    and t: "t = (nat (fst (target (fst c) (snd c) n)), nat (snd (target (fst c) (snd c) n)))"
    and o: "wall_open ws (int ((snd c * W + fst c) * 2) + walldiff W ! n)"
    by (simp_all add: reaches_def)
  from direction_linked[OF c n g, of ws] o t show "linked W H ws c t" by simp
next
  assume l: "linked W H ws c t"
  then have l': "linked W H ws (fst c, snd c) t" by simp
  from linked_direction[OF l'] obtain n where n: "n < 4"
    and g: "in_grid W H (target (fst c) (snd c) n)"
    and t: "t = (nat (fst (target (fst c) (snd c) n)), nat (snd (target (fst c) (snd c) n)))"
    by blast
  from direction_linked[OF c n g, of ws] l' t
  have "wall_open ws (int ((snd c * W + fst c) * 2) + walldiff W ! n)" by simp
  with g t have "reaches W H ws (c, n) t" by (simp add: reaches_def)
  with n show "\<exists>n<4. reaches W H ws (c, n) t" by blast
qed

lemma moves_reaches:
  assumes "\<forall>c\<in>set level. fst c < W \<and> snd c < H"
  shows "(\<exists>m\<in>set (moves level). reaches W H ws m t) \<longleftrightarrow> (\<exists>c\<in>set level. linked W H ws c t)"
proof -
  have sm: "set (moves level) = {m. fst m \<in> set level \<and> snd m < 4}"
    by (auto simp add: moves_def)
  have "(\<exists>m\<in>set (moves level). reaches W H ws m t) \<longleftrightarrow>
        (\<exists>c\<in>set level. \<exists>n<4. reaches W H ws (c, n) t)"
  proof
    assume "\<exists>m\<in>set (moves level). reaches W H ws m t"
    then obtain m where "fst m \<in> set level" "snd m < 4" "reaches W H ws m t"
      unfolding sm by blast
    then have "fst m \<in> set level \<and> snd m < 4 \<and> reaches W H ws (fst m, snd m) t" by simp
    then show "\<exists>c\<in>set level. \<exists>n<4. reaches W H ws (c, n) t" by blast
  next
    assume "\<exists>c\<in>set level. \<exists>n<4. reaches W H ws (c, n) t"
    then obtain c n where "c \<in> set level" "n < 4" "reaches W H ws (c, n) t" by blast
    then have "(c, n) \<in> set (moves level) \<and> reaches W H ws (c, n) t" unfolding sm by simp
    then show "\<exists>m\<in>set (moves level). reaches W H ws m t" by blast
  qed
  also have "\<dots> \<longleftrightarrow> (\<exists>c\<in>set level. linked W H ws c t)"
    using assms reaches_linked[of _ W H ws t] by blast
  finally show ?thesis .
qed

lemma expand_correct:
  assumes sh: "shape W H st" and d: "depth \<noteq> 0"
    and lv: "\<forall>c\<in>set level. fst c < W \<and> snd c < H"
    and e: "expand W H ws depth level st = (st', level')"
  shows "shape W H st' \<and>
         (\<forall>t. snd t < H \<longrightarrow>
            depth_at st' t = (if depth_at st t = 0 \<and> (\<exists>c\<in>set level. linked W H ws c t)
                              then depth else depth_at st t)) \<and>
         set level' = {t. depth_at st t = 0 \<and> (\<exists>c\<in>set level. linked W H ws c t)}"
proof -
  from e have "fold (\<lambda>m. visit W H ws depth (fst m) (snd m)) (moves level) (st, []) = (st', level')"
    by (simp add: expand_moves)
  from fold_visit[OF sh d this] show ?thesis by (simp add: moves_reaches[OF lv])
qed

subsection \<open>Walks\<close>

lemma walk_single: "walk W H ws a a [a]"
  by (simp add: walk_def)

lemma walk_snoc:
  assumes "walk W H ws a q p" "linked W H ws q c"
  shows "walk W H ws a c (p @ [c])"
  using assms by (auto simp add: walk_def successively_append_iff)

lemma walk_unsnoc:
  assumes w: "walk W H ws a c p" and l: "2 \<le> length p"
  shows "\<exists>p' q. p = p' @ [c] \<and> walk W H ws a q p' \<and> linked W H ws q c"
proof -
  from w have ne: "p \<noteq> []" by (simp add: walk_def)
  then obtain p' c' where p: "p = p' @ [c']" by (cases p rule: rev_cases) auto
  with w have c': "c' = c" by (simp add: walk_def)
  from l p have ne': "p' \<noteq> []" by auto
  from w p c' ne' have "walk W H ws a (last p') p'" "linked W H ws (last p') c"
    by (auto simp add: walk_def successively_append_iff)
  with p c' show ?thesis by blast
qed

lemma walk_short:
  assumes "walk W H ws a c p" "length p \<le> 1"
  shows "p = [a] \<and> c = a"
proof -
  from assms obtain x where x: "p = [x]" by (cases p) (auto simp add: walk_def)
  from assms(1) have "hd p = a" "last p = c" by (simp_all add: walk_def)
  with x show ?thesis by simp
qed

lemma walk_in_grid:
  assumes a: "fst a < W" "snd a < H" and w: "walk W H ws a c p"
  shows "fst c < W \<and> snd c < H"
proof (cases "2 \<le> length p")
  case True
  from walk_unsnoc[OF w True] obtain q where "linked W H ws q c" by blast
  then show ?thesis by (simp add: linked_def)
next
  case False
  then have "length p \<le> 1" by simp
  from walk_short[OF w this] a show ?thesis by simp
qed

subsection \<open>The invariant of the search\<close>

lemma depth_at_zeros: "fst c < W \<Longrightarrow> snd c < H \<Longrightarrow> depth_at (replicate H (replicate W 0)) c = 0"
  by (simp add: depth_at_def)

lemma shape_zeros: "shape W H (replicate H (replicate W 0))"
  by (simp add: shape_def)

lemma bfs_invI:
  assumes "shape W H (solution_state sv)" "fst e < W" "snd e < H" "0 < solution_depth sv"
    and "\<And>c. fst c < W \<Longrightarrow> snd c < H \<Longrightarrow> depth_at (solution_state sv) c \<noteq> 0 \<Longrightarrow>
          depth_at (solution_state sv) c \<le> solution_depth sv \<and>
          (\<exists>p. walk W H ws e c p \<and> length p = depth_at (solution_state sv) c)"
    and "\<And>c p. walk W H ws e c p \<Longrightarrow>
          length p \<le> solution_depth sv \<or> depth_at (solution_state sv) c \<noteq> 0 \<Longrightarrow>
          depth_at (solution_state sv) c \<noteq> 0 \<and> depth_at (solution_state sv) c \<le> length p"
    and "set (solution_level sv) =
       {c. fst c < W \<and> snd c < H \<and> depth_at (solution_state sv) c = solution_depth sv}"
  shows "bfs_inv W H ws e sv"
  unfolding bfs_inv_def
proof (intro conjI allI impI)
  fix c assume "fst c < W \<and> snd c < H \<and> depth_at (solution_state sv) c \<noteq> 0"
  then have a: "fst c < W" "snd c < H" "depth_at (solution_state sv) c \<noteq> 0" by blast+
  from assms(5)[OF a] show "depth_at (solution_state sv) c \<le> solution_depth sv"
    and "\<exists>p. walk W H ws e c p \<and> length p = depth_at (solution_state sv) c" by blast+
next
  fix c p assume "walk W H ws e c p \<and>
      (length p \<le> solution_depth sv \<or> depth_at (solution_state sv) c \<noteq> 0)"
  then have a: "walk W H ws e c p"
      "length p \<le> solution_depth sv \<or> depth_at (solution_state sv) c \<noteq> 0" by blast+
  from assms(6)[OF a] show "depth_at (solution_state sv) c \<noteq> 0"
    and "depth_at (solution_state sv) c \<le> length p" by blast+
qed (use assms in blast)+

lemma init_solution_correct:
  assumes H: "0 < H" and sx: "sx < W"
  shows "\<exists>sv. init_solution W H sx = ret sv \<and> bfs_inv W H ws (sx, 0) sv"
proof -
  define z where "z = replicate H (replicate W (0::nat))"
  define st where "st = z[0 := (z ! 0)[sx := 1]]"
  let ?sv = "\<lparr>solution_state = st, solution_level = [(sx, 0)], solution_depth = 1\<rparr>"
  have i: "init_solution W H sx = ret ?sv"
    using H sx by (simp add: init_solution_def Let_def st_def z_def)
  have shz: "shape W H z" unfolding z_def by (rule shape_zeros)
  have sh: "shape W H st" unfolding st_def by (rule shape_update[OF shz H])
  have d: "depth_at st c = (if c = (sx, 0) then 1 else 0)" if "fst c < W" "snd c < H" for c
  proof -
    have "depth_at z c = 0" unfolding z_def by (rule depth_at_zeros[OF that])
    with depth_at_update[OF shz sx H that(2), of 1] show ?thesis by (simp add: st_def)
  qed
  have e: "fst (sx, 0 :: nat) < W" "snd (sx, 0 :: nat) < H" using sx H by simp_all
  have i2: "depth_at st c \<le> 1 \<and> (\<exists>p. walk W H ws (sx, 0) c p \<and> length p = depth_at st c)"
    if g: "fst c < W" "snd c < H" and nz: "depth_at st c \<noteq> 0" for c
  proof -
    from nz d[OF g] have c: "c = (sx, 0)" by (auto split: if_splits)
    have "walk W H ws (sx, 0) (sx, 0) [(sx, 0)]" by (rule walk_single)
    with c d[OF g] show ?thesis by (intro conjI exI[of _ "[(sx, 0)]"]) auto
  qed
  have i3: "depth_at st c \<noteq> 0 \<and> depth_at st c \<le> length p"
    if wk: "walk W H ws (sx, 0) c p" and h: "length p \<le> 1 \<or> depth_at st c \<noteq> 0" for c p
  proof -
    from walk_in_grid[OF e wk] have g: "fst c < W" "snd c < H" by simp_all
    from wk have l: "1 \<le> length p" by (cases p) (simp_all add: walk_def)
    have "c = (sx, 0)"
    proof (cases "length p \<le> 1")
      case True
      from walk_short[OF wk True] show ?thesis by simp
    next
      case False
      with h have "depth_at st c \<noteq> 0" by simp
      with d[OF g] show ?thesis by (auto split: if_splits)
    qed
    with d[OF g] l show ?thesis by simp
  qed
  have i4: "set [(sx, 0)] = {c. fst c < W \<and> snd c < H \<and> depth_at st c = 1}"
  proof (intro set_eqI iffI)
    fix c :: "nat \<times> nat" assume "c \<in> set [(sx, 0)]"
    then have c: "c = (sx, 0)" by simp
    with sx H have g: "fst c < W" "snd c < H" by simp_all
    from d[OF g] c g show "c \<in> {c. fst c < W \<and> snd c < H \<and> depth_at st c = 1}" by simp
  next
    fix c :: "nat \<times> nat" assume "c \<in> {c. fst c < W \<and> snd c < H \<and> depth_at st c = 1}"
    then have g: "fst c < W" "snd c < H" and dc: "depth_at st c = 1" by simp_all
    have "c = (sx, 0)"
    proof (rule ccontr)
      assume "c \<noteq> (sx, 0)"
      then have "depth_at st c = 0" by (simp only: d[OF g] if_False)
      with dc show False by simp
    qed
    then show "c \<in> set [(sx, 0)]" by simp
  qed
  have "bfs_inv W H ws (sx, 0) ?sv"
  proof (rule bfs_invI)
    show "shape W H (solution_state ?sv)" using sh by simp
    show "fst (sx, 0::nat) < W" "snd (sx, 0::nat) < H" using sx H by simp_all
    show "0 < solution_depth ?sv" by simp
    show "set (solution_level ?sv) =
       {c. fst c < W \<and> snd c < H \<and> depth_at (solution_state ?sv) c = solution_depth ?sv}"
      using i4 by simp
  next
    fix c assume "fst c < W" "snd c < H" "depth_at (solution_state ?sv) c \<noteq> 0"
    then show "depth_at (solution_state ?sv) c \<le> solution_depth ?sv \<and>
          (\<exists>p. walk W H ws (sx, 0) c p \<and> length p = depth_at (solution_state ?sv) c)"
      using i2[of c] by simp
  next
    fix c p assume "walk W H ws (sx, 0) c p"
      "length p \<le> solution_depth ?sv \<or> depth_at (solution_state ?sv) c \<noteq> 0"
    then show "depth_at (solution_state ?sv) c \<noteq> 0 \<and> depth_at (solution_state ?sv) c \<le> length p"
      using i3[of c p] by simp
  qed
  with i show ?thesis by blast
qed

lemma bfs_inv_step:
  assumes inv: "bfs_inv W H ws e sv"
    and e: "expand W H ws (solution_depth sv + 1) (solution_level sv) (solution_state sv) = (st', level')"
  shows "bfs_inv W H ws e \<lparr>solution_state = st', solution_level = level',
           solution_depth = solution_depth sv + 1\<rparr>"
proof -
  let ?st = "solution_state sv" and ?D = "solution_depth sv" and ?lv = "solution_level sv"
  from inv have sh: "shape W H ?st" and eg: "fst e < W" "snd e < H" and D: "0 < ?D"
    and I2: "\<And>c. fst c < W \<Longrightarrow> snd c < H \<Longrightarrow> depth_at ?st c \<noteq> 0 \<Longrightarrow>
          depth_at ?st c \<le> ?D \<and> (\<exists>p. walk W H ws e c p \<and> length p = depth_at ?st c)"
    and I3: "\<And>c p. walk W H ws e c p \<Longrightarrow> length p \<le> ?D \<or> depth_at ?st c \<noteq> 0 \<Longrightarrow>
          depth_at ?st c \<noteq> 0 \<and> depth_at ?st c \<le> length p"
    and I4: "set ?lv = {c. fst c < W \<and> snd c < H \<and> depth_at ?st c = ?D}"
    unfolding bfs_inv_def by blast+
  have lv: "\<forall>c\<in>set ?lv. fst c < W \<and> snd c < H" using I4 by auto
  have "?D + 1 \<noteq> 0" by simp
  note ec = expand_correct[OF sh this lv e]
  from ec have sh': "shape W H st'" by (rule conjunct1)
  from ec have l': "set level' = {t. depth_at ?st t = 0 \<and> (\<exists>c\<in>set ?lv. linked W H ws c t)}"
    by (rule conjunct2[THEN conjunct2])
  have d': "depth_at st' t =
        (if depth_at ?st t = 0 \<and> (\<exists>c\<in>set ?lv. linked W H ws c t) then ?D + 1 else depth_at ?st t)"
    if "snd t < H" for t
    using ec[THEN conjunct2, THEN conjunct1, rule_format, OF that] .
  have J2: "depth_at st' c \<le> ?D + 1 \<and> (\<exists>p. walk W H ws e c p \<and> length p = depth_at st' c)"
    if c: "fst c < W" "snd c < H" "depth_at st' c \<noteq> 0" for c
  proof (cases "depth_at ?st c = 0")
    case False
    with d'[OF c(2)] have "depth_at st' c = depth_at ?st c" by simp
    with I2[OF c(1,2) False] show ?thesis by auto
  next
    case True
    with d'[OF c(2)] c(3) obtain q where q: "q \<in> set ?lv" "linked W H ws q c"
      and dc: "depth_at st' c = ?D + 1" by (auto split: if_splits)
    from q(1) I4 have qg: "fst q < W" "snd q < H" "depth_at ?st q = ?D" by auto
    with I2[OF qg(1,2)] D obtain p where p: "walk W H ws e q p" "length p = ?D" by auto
    from walk_snoc[OF p(1) q(2)] p(2) dc show ?thesis
      by (intro conjI exI[of _ "p @ [c]"]) simp_all
  qed
  have J3: "depth_at st' c \<noteq> 0 \<and> depth_at st' c \<le> length p"
    if w: "walk W H ws e c p" and h: "length p \<le> ?D + 1 \<or> depth_at st' c \<noteq> 0" for c p
  proof -
    from walk_in_grid[OF eg w] have cg: "fst c < W" "snd c < H" by simp_all
    show ?thesis
    proof (cases "depth_at ?st c = 0")
      case False
      with d'[OF cg(2)] have "depth_at st' c = depth_at ?st c" by simp
      with I3[OF w] False show ?thesis by simp
    next
      case True
      with I3[OF w] have long: "?D < length p" by (cases "length p \<le> ?D") auto
      show ?thesis
      proof (cases "depth_at st' c = 0")
        case False
        with d'[OF cg(2)] True have "depth_at st' c = ?D + 1" by (auto split: if_splits)
        with long show ?thesis by simp
      next
        case z: True
        with h long have len: "length p = ?D + 1" by simp
        with D have "2 \<le> length p" by simp
        from walk_unsnoc[OF w this] obtain p' q where
          p': "p = p' @ [c]" "walk W H ws e q p'" "linked W H ws q c" by blast
        from p'(1) len have lp': "length p' = ?D" by simp
        from I3[OF p'(2)] lp' have dq: "depth_at ?st q \<noteq> 0" "depth_at ?st q \<le> ?D" by simp_all
        from walk_in_grid[OF eg p'(2)] have qg: "fst q < W" "snd q < H" by simp_all
        have "depth_at ?st q = ?D"
        proof (rule ccontr)
          assume "depth_at ?st q \<noteq> ?D"
          with dq have lt: "depth_at ?st q < ?D" by simp
          from I2[OF qg dq(1)] obtain r where r: "walk W H ws e q r" "length r = depth_at ?st q"
            by blast
          from walk_snoc[OF r(1) p'(3)] have "walk W H ws e c (r @ [c])" .
          from I3[OF this] r(2) lt have "depth_at ?st c \<noteq> 0" by simp
          with True show False by simp
        qed
        with qg I4 have "q \<in> set ?lv" by simp
        with p'(3) True d'[OF cg(2)] have "depth_at st' c = ?D + 1" by auto
        with z show ?thesis by simp
      qed
    qed
  qed
  have J4: "set level' = {c. fst c < W \<and> snd c < H \<and> depth_at st' c = ?D + 1}"
  proof (intro set_eqI iffI)
    fix t assume "t \<in> set level'"
    with l' obtain q where t: "depth_at ?st t = 0" "q \<in> set ?lv" "linked W H ws q t" by auto
    from linked_in_grid[OF t(3)] have tg: "fst t < W" "snd t < H" by simp_all
    with d'[OF tg(2)] t show "t \<in> {c. fst c < W \<and> snd c < H \<and> depth_at st' c = ?D + 1}" by auto
  next
    fix t assume "t \<in> {c. fst c < W \<and> snd c < H \<and> depth_at st' c = ?D + 1}"
    then have t: "fst t < W" "snd t < H" "depth_at st' t = ?D + 1" by simp_all
    have z: "depth_at ?st t = 0"
    proof (rule ccontr)
      assume n: "depth_at ?st t \<noteq> 0"
      with d'[OF t(2)] have "depth_at st' t = depth_at ?st t" by simp
      with I2[OF t(1,2) n] t(3) show False by simp
    qed
    have ex: "\<exists>c\<in>set ?lv. linked W H ws c t"
    proof (rule ccontr)
      assume "\<not> (\<exists>c\<in>set ?lv. linked W H ws c t)"
      then have "depth_at st' t = depth_at ?st t" by (simp only: d'[OF t(2)] simp_thms if_False)
      with z t(3) show False by simp
    qed
    from z ex have "t \<in> {t. depth_at ?st t = 0 \<and> (\<exists>c\<in>set ?lv. linked W H ws c t)}" by blast
    then show "t \<in> set level'" unfolding l' .
  qed
  let ?sv' = "\<lparr>solution_state = st', solution_level = level', solution_depth = ?D + 1\<rparr>"
  show ?thesis
  proof (rule bfs_invI)
    show "shape W H (solution_state ?sv')" using sh' by simp
    show "fst e < W" "snd e < H" by fact+
    show "0 < solution_depth ?sv'" by simp
    show "set (solution_level ?sv') =
       {c. fst c < W \<and> snd c < H \<and> depth_at (solution_state ?sv') c = solution_depth ?sv'}"
      using J4 by simp
  next
    fix c assume "fst c < W" "snd c < H" "depth_at (solution_state ?sv') c \<noteq> 0"
    then show "depth_at (solution_state ?sv') c \<le> solution_depth ?sv' \<and>
          (\<exists>p. walk W H ws e c p \<and> length p = depth_at (solution_state ?sv') c)"
      using J2[of c] by simp
  next
    fix c p assume "walk W H ws e c p"
      "length p \<le> solution_depth ?sv' \<or> depth_at (solution_state ?sv') c \<noteq> 0"
    then show "depth_at (solution_state ?sv') c \<noteq> 0 \<and> depth_at (solution_state ?sv') c \<le> length p"
      using J3[of c p] by simp
  qed
qed

subsection \<open>What the invariant gives\<close>

lemma bfs_inv_shape: "bfs_inv W H ws e sv \<Longrightarrow> shape W H (solution_state sv)"
  by (simp add: bfs_inv_def)

lemma bfs_inv_entrance: "bfs_inv W H ws e sv \<Longrightarrow> fst e < W \<and> snd e < H"
  by (simp add: bfs_inv_def)

lemma bfs_inv_reached:
  assumes "bfs_inv W H ws e sv" "fst c < W" "snd c < H" "depth_at (solution_state sv) c \<noteq> 0"
  shows "depth_at (solution_state sv) c \<le> solution_depth sv \<and>
         (\<exists>p. walk W H ws e c p \<and> length p = depth_at (solution_state sv) c)"
proof -
  from assms(1) have "\<forall>c. fst c < W \<and> snd c < H \<and> depth_at (solution_state sv) c \<noteq> 0 \<longrightarrow>
          depth_at (solution_state sv) c \<le> solution_depth sv \<and>
          (\<exists>p. walk W H ws e c p \<and> length p = depth_at (solution_state sv) c)"
    unfolding bfs_inv_def by blast
  with assms(2-4) show ?thesis by blast
qed

lemma bfs_inv_least:
  assumes "bfs_inv W H ws e sv" "walk W H ws e c p"
    "length p \<le> solution_depth sv \<or> depth_at (solution_state sv) c \<noteq> 0"
  shows "depth_at (solution_state sv) c \<noteq> 0 \<and> depth_at (solution_state sv) c \<le> length p"
proof -
  from assms(1) have "\<forall>c p. walk W H ws e c p \<and>
        (length p \<le> solution_depth sv \<or> depth_at (solution_state sv) c \<noteq> 0) \<longrightarrow>
          depth_at (solution_state sv) c \<noteq> 0 \<and> depth_at (solution_state sv) c \<le> length p"
    unfolding bfs_inv_def by blast
  with assms(2,3) show ?thesis by blast
qed

lemma bfs_inv_level:
  assumes "bfs_inv W H ws e sv"
  shows "set (solution_level sv) =
       {c. fst c < W \<and> snd c < H \<and> depth_at (solution_state sv) c = solution_depth sv}"
  using assms unfolding bfs_inv_def by blast

lemma bfs_inv_depth_pos: "bfs_inv W H ws e sv \<Longrightarrow> 0 < solution_depth sv"
  by (simp add: bfs_inv_def)

lemma neighbours_depth:
  assumes inv: "bfs_inv W H ws e sv" and l: "linked W H ws c q"
    and q: "depth_at (solution_state sv) q \<noteq> 0"
    and c: "depth_at (solution_state sv) c \<noteq> 0 \<or> depth_at (solution_state sv) q < solution_depth sv"
  shows "depth_at (solution_state sv) c \<noteq> 0 \<and>
         depth_at (solution_state sv) c \<le> depth_at (solution_state sv) q + 1"
proof -
  from linked_in_grid[OF l] have qg: "fst q < W" "snd q < H" by simp_all
  from bfs_inv_reached[OF inv qg q] obtain r where
    r: "walk W H ws e q r" "length r = depth_at (solution_state sv) q" by blast
  from walk_snoc[OF r(1) linked_sym[OF l]] have w: "walk W H ws e c (r @ [c])" .
  from c r(2) have "length (r @ [c]) \<le> solution_depth sv \<or> depth_at (solution_state sv) c \<noteq> 0"
    by auto
  from bfs_inv_least[OF inv w this] r(2) show ?thesis by simp
qed

lemma predecessor:
  assumes inv: "bfs_inv W H ws e sv" and g: "fst c < W" "snd c < H"
    and d: "2 \<le> depth_at (solution_state sv) c"
  shows "\<exists>q. linked W H ws c q \<and> depth_at (solution_state sv) q \<noteq> 0 \<and>
             depth_at (solution_state sv) q < depth_at (solution_state sv) c"
proof -
  let ?d = "depth_at (solution_state sv)"
  from d have nz: "?d c \<noteq> 0" by simp
  from bfs_inv_reached[OF inv g nz] obtain p where
    p: "?d c \<le> solution_depth sv" "walk W H ws e c p" "length p = ?d c" by blast
  from d p(3) have "2 \<le> length p" by simp
  from walk_unsnoc[OF p(2) this] obtain p' q where
    p': "p = p' @ [c]" "walk W H ws e q p'" "linked W H ws q c" by blast
  from p'(1) p(3) have lp: "Suc (length p') = ?d c" by simp
  with p(1) have "length p' \<le> solution_depth sv \<or> ?d q \<noteq> 0" by simp
  from bfs_inv_least[OF inv p'(2) this] lp have "?d q \<noteq> 0" "?d q < ?d c" by simp_all
  with linked_sym[OF p'(3)] show ?thesis by blast
qed

lemma bfs_inv_exhausted:
  assumes inv: "bfs_inv W H ws e sv" and empty: "solution_level sv = []"
  shows "walk W H ws e c p \<Longrightarrow> depth_at (solution_state sv) c \<noteq> 0"
proof (induction "length p" arbitrary: c p rule: less_induct)
  case less
  let ?d = "depth_at (solution_state sv)"
  note w = less.prems
  show ?case
  proof (cases "2 \<le> length p")
    case False
    then have "length p \<le> solution_depth sv" using bfs_inv_depth_pos[OF inv] by simp
    with bfs_inv_least[OF inv w] show ?thesis by simp
  next
    case True
    from walk_unsnoc[OF w True] obtain p' q where
      p': "p = p' @ [c]" "walk W H ws e q p'" "linked W H ws q c" by blast
    from p'(1) have "length p' < length p" by simp
    from less.hyps[OF this p'(2)] have q: "?d q \<noteq> 0" .
    from linked_in_grid[OF p'(3)] have qg: "fst q < W" "snd q < H" by simp_all
    from bfs_inv_reached[OF inv qg q] have le: "?d q \<le> solution_depth sv" by simp
    have "?d q \<noteq> solution_depth sv"
    proof
      assume "?d q = solution_depth sv"
      with qg have "q \<in> {c. fst c < W \<and> snd c < H \<and> ?d c = solution_depth sv}" by simp
      then have "q \<in> set (solution_level sv)" unfolding bfs_inv_level[OF inv] .
      with empty show False by simp
    qed
    with le have "?d q < solution_depth sv" by simp
    then have "?d c \<noteq> 0 \<or> ?d q < solution_depth sv" by simp
    from neighbours_depth[OF inv linked_sym[OF p'(3)] q this] show ?thesis by simp
  qed
qed

subsection \<open>The backtrace\<close>

lemma find_Some_holds: "find P xs = Some x \<Longrightarrow> P x \<and> x \<in> set xs"
  by (induction xs) (auto split: if_splits)

lemma find_None_holds: "find P xs = None \<Longrightarrow> x \<in> set xs \<Longrightarrow> \<not> P x"
  by (induction xs) (auto split: if_splits)

lemma lower_linked:
  assumes g: "x < W" "y < H" and n: "n < 4"
  shows "lower W H ws st x y n \<longleftrightarrow>
     in_grid W H (target x y n) \<and>
     linked W H ws (x, y) (nat (fst (target x y n)), nat (snd (target x y n))) \<and>
     depth_at st (nat (fst (target x y n)), nat (snd (target x y n))) \<noteq> 0 \<and>
     depth_at st (nat (fst (target x y n)), nat (snd (target x y n))) < depth_at st (x, y)"
proof (cases "in_grid W H (target x y n)")
  case False
  then show ?thesis by (simp add: lower_def split_def Let_def)
next
  case True
  from direction_linked[OF g n True, of ws] True show ?thesis
    by (auto simp add: lower_def split_def depth_at_def Let_def)
qed

lemma walk_cons:
  assumes "linked W H ws a q" "walk W H ws q b p"
  shows "walk W H ws a b (a # p)"
  using assms by (cases p) (auto simp add: walk_def)

lemma backtrace_correct:
  assumes inv: "bfs_inv W H ws e sv"
  shows "fst c < W \<Longrightarrow> snd c < H \<Longrightarrow> depth_at (solution_state sv) c = d \<Longrightarrow> d \<noteq> 0 \<Longrightarrow>
     \<exists>path. backtrace W H ws (solution_state sv) (fst c) (snd c) painted = Some (painted @ path) \<and>
        walk W H ws c e path \<and> length path = d \<and> distinct path \<and>
        (\<forall>q\<in>set path. depth_at (solution_state sv) q \<le> d)"
proof (induction d arbitrary: c painted rule: less_induct)
  case (less d)
  let ?st = "solution_state sv"
  obtain x y where c: "c = (x, y)" by (cases c)
  with less.prems have g: "x < W" "y < H" and dc: "depth_at ?st (x, y) = d" by simp_all
  from less.prems c have cg: "fst c < W" "snd c < H" and dc': "depth_at ?st c = d"
    and nz: "depth_at ?st c \<noteq> 0" by simp_all
  let ?t = "\<lambda>n. (nat (fst (target x y n)), nat (snd (target x y n)))"
  have low: "lower W H ws ?st x y n \<longleftrightarrow>
      in_grid W H (target x y n) \<and> linked W H ws c (?t n) \<and> depth_at ?st (?t n) \<noteq> 0 \<and>
      depth_at ?st (?t n) < d" if "n < 4" for n
    unfolding lower_linked[OF g that] dc c ..
  show ?case
  proof (cases "find (lower W H ws ?st x y) [0..<4]")
    case None
    have no: "\<not> lower W H ws ?st x y n" if "n < 4" for n
      by (rule find_None_holds[OF None]) (use that in simp)
    have d1: "d = 1"
    proof (rule ccontr)
      assume "d \<noteq> 1"
      with less.prems(4) have "2 \<le> d" by simp
      with dc' have "2 \<le> depth_at ?st c" by simp
      from predecessor[OF inv cg this] dc' obtain q where
        q: "linked W H ws c q" "depth_at ?st q \<noteq> 0" "depth_at ?st q < d" by auto
      from q(1) c have "linked W H ws (x, y) q" by simp
      from linked_direction[OF this] obtain n where
        n: "n < 4" "in_grid W H (target x y n)" "q = ?t n" by blast
      from n q have "lower W H ws ?st x y n" unfolding low[OF n(1)] by simp
      with no[OF n(1)] show False by simp
    qed
    from bfs_inv_reached[OF inv cg nz] dc' d1 obtain p where
      p: "walk W H ws e c p" "length p = 1" by auto
    from walk_short[OF p(1)] p(2) have ce: "c = e" by simp
    have b: "backtrace W H ws ?st (fst c) (snd c) painted = Some (painted @ [c])"
      by (subst backtrace.simps) (simp add: None c)
    have "walk W H ws c e [c]" unfolding ce by (rule walk_single)
    with b d1 dc' show ?thesis by (intro exI[of _ "[c]"]) simp
  next
    case (Some n)
    from find_Some_holds[OF Some] have n: "n < 4" and ln: "lower W H ws ?st x y n" by simp_all
    let ?q = "?t n"
    from ln have l: "linked W H ws c ?q" and qz: "depth_at ?st ?q \<noteq> 0"
      and qd: "depth_at ?st ?q < d" unfolding low[OF n] by blast+
    from linked_in_grid[OF l] have qg: "fst ?q < W" "snd ?q < H" by blast+
    from less.IH[OF qd qg refl qz, of "painted @ [c]"] obtain path where
      path: "backtrace W H ws ?st (fst ?q) (snd ?q) (painted @ [c]) = Some ((painted @ [c]) @ path)"
      "walk W H ws ?q e path" "length path = depth_at ?st ?q" "distinct path"
      "\<forall>r\<in>set path. depth_at ?st r \<le> depth_at ?st ?q" by blast
    from nz have "depth_at ?st c \<noteq> 0 \<or> depth_at ?st ?q < solution_depth sv" by simp
    from neighbours_depth[OF inv l qz this] dc' have "d \<le> depth_at ?st ?q + 1" by simp
    with qd have dq: "Suc (depth_at ?st ?q) = d" by simp
    have b: "backtrace W H ws ?st (fst c) (snd c) painted = Some (painted @ (c # path))"
      using path(1) by (subst backtrace.simps) (simp add: Some c)
    have w: "walk W H ws c e (c # path)" by (rule walk_cons[OF l path(2)])
    have notin: "c \<notin> set path"
    proof
      assume "c \<in> set path"
      with path(5) have "depth_at ?st c \<le> depth_at ?st ?q" by blast
      with dc' qd show False by simp
    qed
    have bound: "\<forall>r\<in>set (c # path). depth_at ?st r \<le> d"
    proof
      fix r assume "r \<in> set (c # path)"
      then consider "r = c" | "r \<in> set path" by auto
      then show "depth_at ?st r \<le> d"
      proof cases
        case 1
        with dc' show ?thesis by simp
      next
        case 2
        with path(5) have "depth_at ?st r \<le> depth_at ?st ?q" by blast
        with qd show ?thesis by simp
      qed
    qed
    from b w path(3) dq path(4) notin bound show ?thesis
      by (intro exI[of _ "c # path"] conjI) simp_all
  qed
qed

subsection \<open>One call of the solver step, and the loop\<close>

lemma finite_grid: "finite {c :: nat \<times> nat. fst c < W \<and> snd c < H \<and> P c}"
proof (rule finite_subset)
  show "{c. fst c < W \<and> snd c < H \<and> P c} \<subseteq> {..<W} \<times> {..<H}" by auto
  show "finite ({..<W} \<times> {..<H})" by simp
qed

lemma solution_step_correct:
  assumes inv: "bfs_inv W H ws e sv" and H: "0 < H" and fx: "fx < W"
  shows "\<exists>continue sv' painted.
           solution_step W H ws fx sv = ret (continue, sv', painted) \<and> bfs_inv W H ws e sv' \<and>
           (if continue then unvisited W H (solution_state sv') < unvisited W H (solution_state sv)
            else outcome W H ws e (fx, H - 1) sv' painted)"
proof -
  let ?st = "solution_state sv" and ?D = "solution_depth sv" and ?lv = "solution_level sv"
  obtain st' level' where ex: "expand W H ws (?D + 1) ?lv ?st = (st', level')"
    by (cases "expand W H ws (?D + 1) ?lv ?st")
  let ?sv' = "\<lparr>solution_state = st', solution_level = level', solution_depth = ?D + 1\<rparr>"
  from bfs_inv_step[OF inv ex] have inv': "bfs_inv W H ws e ?sv'" .
  from bfs_inv_shape[OF inv'] have sh': "shape W H st'" by simp
  from ex have ex': "expand W H ws (Suc ?D) ?lv ?st = (st', level')" by simp
  let ?x = "(fx, H - 1)"
  from H fx have xg: "fst ?x < W" "snd ?x < H" by simp_all
  from sh' H have r1: "nth_checked st' (H - 1) = ret (st' ! (H - 1))"
    by (simp add: nth_checked_def shape_def)
  from sh' H fx have r2: "nth_checked (st' ! (H - 1)) fx = ret (depth_at st' ?x)"
    by (simp add: nth_checked_def shape_def depth_at_def)
  show ?thesis
  proof (cases "depth_at st' ?x = 0")
    case True
    have s: "solution_step W H ws fx sv = ret (level' \<noteq> [], ?sv', [])"
      using H by (simp add: solution_step_def Let_def ex ex' r1 r2 True del: One_nat_def)
    show ?thesis
    proof (cases "level' = []")
      case e: True
      have "outcome W H ws e ?x ?sv' []" using True e by (simp add: outcome_def)
      with s e inv' show ?thesis by (intro exI[of _ False] exI[of _ ?sv'] exI[of _ "[]"]) simp
    next
      case False
      then obtain t where t: "t \<in> set level'" by (cases level') auto
      from bfs_inv_shape[OF inv] have sh: "shape W H ?st" .
      have lv: "\<forall>c\<in>set ?lv. fst c < W \<and> snd c < H" unfolding bfs_inv_level[OF inv] by simp
      have "?D + 1 \<noteq> 0" by simp
      note ec = expand_correct[OF sh this lv ex]
      from ec have l': "set level' = {t. depth_at ?st t = 0 \<and> (\<exists>c\<in>set ?lv. linked W H ws c t)}"
        by (rule conjunct2[THEN conjunct2])
      have d': "depth_at st' c =
            (if depth_at ?st c = 0 \<and> (\<exists>q\<in>set ?lv. linked W H ws q c) then ?D + 1 else depth_at ?st c)"
        if "snd c < H" for c
        using ec[THEN conjunct2, THEN conjunct1, rule_format, OF that] .
      from t have "t \<in> {t. depth_at ?st t = 0 \<and> (\<exists>c\<in>set ?lv. linked W H ws c t)}" unfolding l' .
      then have t0: "depth_at ?st t = 0" and tl: "\<exists>c\<in>set ?lv. linked W H ws c t" by blast+
      from tl linked_in_grid have tg: "fst t < W" "snd t < H" by blast+
      from d'[OF tg(2)] t0 tl have t1: "depth_at st' t \<noteq> 0" by simp
      let ?A = "{c. fst c < W \<and> snd c < H \<and> depth_at st' c = 0}"
      let ?B = "{c. fst c < W \<and> snd c < H \<and> depth_at ?st c = 0}"
      have sub: "?A \<subseteq> ?B"
      proof
        fix c assume "c \<in> ?A"
        then have c: "fst c < W" "snd c < H" "depth_at st' c = 0" by simp_all
        have "depth_at ?st c = 0"
        proof (rule ccontr)
          assume "depth_at ?st c \<noteq> 0"
          then have "depth_at st' c = depth_at ?st c" by (simp only: d'[OF c(2)] simp_thms if_False)
          with c(3) \<open>depth_at ?st c \<noteq> 0\<close> show False by simp
        qed
        with c show "c \<in> ?B" by simp
      qed
      from tg t0 have "t \<in> ?B" by simp
      moreover from t1 have "t \<notin> ?A" by simp
      ultimately have "?A \<subset> ?B" using sub by blast
      from psubset_card_mono[OF finite_grid this] have "unvisited W H st' < unvisited W H ?st"
        by (simp only: unvisited_def)
      with s False inv' show ?thesis by (intro exI[of _ True] exI[of _ ?sv'] exI[of _ "[]"]) simp
    qed
  next
    case False
    from backtrace_correct[OF inv' xg _ _, of "depth_at st' ?x" "[]"] False obtain path where
      path: "backtrace W H ws st' fx (H - 1) [] = Some path" "walk W H ws ?x e path"
      "length path = depth_at st' ?x" "distinct path" by auto
    have s: "solution_step W H ws fx sv = ret (False, ?sv', path)"
      using H by (simp add: solution_step_def Let_def ex ex' r1 r2 False path(1) del: One_nat_def)
    have "outcome W H ws e ?x ?sv' path" using False path(2-4) by (simp add: outcome_def)
    with s inv' show ?thesis by (intro exI[of _ False] exI[of _ ?sv'] exI[of _ path]) simp
  qed
qed

lemma solution_loop_correct:
  assumes H: "0 < H" and fx: "fx < W"
  shows "bfs_inv W H ws e sv \<Longrightarrow>
     \<exists>sv' painted. solution_loop W H ws fx sv = ret (sv', painted) \<and> bfs_inv W H ws e sv' \<and>
        outcome W H ws e (fx, H - 1) sv' painted"
proof (induction "unvisited W H (solution_state sv)" arbitrary: sv rule: less_induct)
  case less
  from solution_step_correct[OF less.prems H fx] obtain continue sv1 painted where
    1: "solution_step W H ws fx sv = ret (continue, sv1, painted)" "bfs_inv W H ws e sv1"
    "if continue then unvisited W H (solution_state sv1) < unvisited W H (solution_state sv)
     else outcome W H ws e (fx, H - 1) sv1 painted" by blast
  show ?case
  proof (cases continue)
    case True
    with 1(3) have "unvisited W H (solution_state sv1) < unvisited W H (solution_state sv)" by simp
    from less.hyps[OF this 1(2)] obtain sv' painted' where
      2: "solution_loop W H ws fx sv1 = ret (sv', painted')" "bfs_inv W H ws e sv'"
      "outcome W H ws e (fx, H - 1) sv' painted'" by blast
    have "solution_loop W H ws fx sv = ret (sv', painted')"
      using 1(1) True 2(1) by (subst solution_loop.simps) (simp add: ret_def)
    with 2(2,3) show ?thesis by blast
  next
    case False
    with 1(3) have o: "outcome W H ws e (fx, H - 1) sv1 painted" by simp
    have "solution_loop W H ws fx sv = ret (sv1, painted)"
      using 1(1) False by (subst solution_loop.simps) (simp add: ret_def)
    with 1(2) o show ?thesis by blast
  qed
qed

lemma solve_correct:
  assumes H: "0 < H" and sx: "start_x s < W" and fx: "finish_x s < W"
  shows "\<exists>sv painted. solve W H s = ret (sv, painted) \<and>
     bfs_inv W H (walls_by_index s) (start_x s, 0) sv \<and>
     outcome W H (walls_by_index s) (start_x s, 0) (finish_x s, H - 1) sv painted"
proof -
  from init_solution_correct[OF H sx, of "walls_by_index s"] obtain sv0 where
    0: "init_solution W H (start_x s) = ret sv0" "bfs_inv W H (walls_by_index s) (start_x s, 0) sv0"
    by blast
  from solution_loop_correct[OF H fx 0(2)] obtain sv painted where
    1: "solution_loop W H (walls_by_index s) (finish_x s) sv0 = ret (sv, painted)"
    "bfs_inv W H (walls_by_index s) (start_x s, 0) sv"
    "outcome W H (walls_by_index s) (start_x s, 0) (finish_x s, H - 1) sv painted" by blast
  have "solve W H s = ret (sv, painted)" using 0(1) 1(1) by (simp add: solve_def)
  with 1(2,3) show ?thesis by blast
qed

subsection \<open>Cells of one component are joined by removed walls\<close>

lemma walk_append:
  assumes "walk W H ws a q p" "walk W H ws q b p'"
  shows "walk W H ws a b (p @ tl p')"
proof (cases "tl p'")
  case Nil
  with assms(2) have "p' = [q]" "b = q" by (cases p'; simp add: walk_def)+
  with assms(1) Nil show ?thesis by simp
next
  case (Cons x r)
  with assms(2) have p': "p' = q # x # r" by (cases p') (simp_all add: walk_def)
  with assms show ?thesis by (auto simp add: walk_def successively_append_iff)
qed

lemma walk_rev:
  assumes "walk W H ws a b p"
  shows "walk W H ws b a (rev p)"
proof -
  have "successively (\<lambda>x y. linked W H ws y x) p"
    by (rule successively_mono[of "linked W H ws"]) (use assms linked_sym in \<open>auto simp add: walk_def\<close>)
  with assms show ?thesis by (simp add: walk_def hd_rev last_rev)
qed

lemma linked_mono:
  assumes "\<And>i. removed (deref ws i) \<Longrightarrow> removed (deref ws' i)" and "linked W H ws a b"
  shows "linked W H ws' a b"
  using assms(2) assms(1) unfolding linked_def by blast

lemma walk_mono:
  assumes m: "\<And>i. removed (deref ws i) \<Longrightarrow> removed (deref ws' i)" and w: "walk W H ws a b p"
  shows "walk W H ws' a b p"
proof -
  from w have "successively (linked W H ws) p" by (simp add: walk_def)
  then have "successively (linked W H ws') p"
    by (rule successively_mono) (rule linked_mono[OF m])
  with w show ?thesis by (simp add: walk_def)
qed

lemma reach_invD:
  assumes "reach_inv W H s" "a < W * H" "b < W * H" "rep (union_find s) a = rep (union_find s) b"
  shows "\<exists>p. walk W H (walls_by_index s) (cell_of W a) (cell_of W b) p"
  using assms unfolding reach_inv_def by blast

lemma reach_invI:
  assumes "\<And>a b. a < W * H \<Longrightarrow> b < W * H \<Longrightarrow> rep (union_find s) a = rep (union_find s) b \<Longrightarrow>
             \<exists>p. walk W H (walls_by_index s) (cell_of W a) (cell_of W b) p"
  shows "reach_inv W H s"
  using assms unfolding reach_inv_def by blast

lemma reach_inv_mono:
  assumes ri: "reach_inv W H s"
    and uf: "\<And>x. rep (union_find s') x = rep (union_find s) x"
    and m: "\<And>i. removed (deref (walls_by_index s) i) \<Longrightarrow> removed (deref (walls_by_index s') i)"
  shows "reach_inv W H s'"
proof (rule reach_invI)
  fix a b assume ab: "a < W * H" "b < W * H" "rep (union_find s') a = rep (union_find s') b"
  then have "rep (union_find s) a = rep (union_find s) b" by (simp add: uf)
  from reach_invD[OF ri ab(1,2) this] obtain p where
    "walk W H (walls_by_index s) (cell_of W a) (cell_of W b) p" by blast
  from walk_mono[OF m this] show "\<exists>p. walk W H (walls_by_index s') (cell_of W a) (cell_of W b) p"
    by blast
qed

lemma grows_removed:
  assumes g: "grows s s'" and r: "removed (deref (walls_by_index s) i)"
  shows "removed (deref (walls_by_index s') i)"
proof -
  from r obtain w where w: "i < length (walls_by_index s)" "walls_by_index s ! i = Some w" "clr w"
    by (auto simp add: removed_def deref_def split: if_splits option.splits)
  from grows_wall[OF g w(1,2)] obtain w' where
    "walls_by_index s' ! i = Some w'" "clr w' = clr w" by blast
  moreover from g have "length (walls_by_index s') = length (walls_by_index s)"
    by (simp add: grows_def)
  ultimately show ?thesis using w by (simp add: removed_def deref_def)
qed

lemma grows_reach_inv:
  assumes "grows s s'" "reach_inv W H s"
  shows "reach_inv W H s'"
proof (rule reach_inv_mono[OF assms(2)])
  fix x show "rep (union_find s') x = rep (union_find s) x" using assms(1) by (simp add: grows_def)
next
  fix i assume "removed (deref (walls_by_index s) i)"
  then show "removed (deref (walls_by_index s') i)" by (rule grows_removed[OF assms(1)])
qed

lemma cell_of_index: "x < W \<Longrightarrow> cell_of W (y * W + x) = (x, y)"
  by (simp add: cell_of_def)

lemma opened_wall_linked:
  assumes wf: "walls_wf W H ws" and r: "r < length ws" "ws ! r = Some w"
  shows "linked W H (ws[r := Some (w\<lparr>clr := True\<rparr>)])
           (cell_of W (wall_y w * W + wall_x w))
           (cell_of W (wall_y w * W + wall_x w + (if dr w then 1 else W)))"
proof -
  let ?ws' = "ws[r := Some (w\<lparr>clr := True\<rparr>)]"
  from wf r have "r < 2 * W * H" by (simp add: walls_wf_def)
  from wall_index_cover[OF this] obtain x y d where
    xy: "x < W" "y < H" and i: "r = wall_index W x y d" by blast
  from wf xy have "case ws ! wall_index W x y d of
          None \<Rightarrow> \<not> present W H x y d
        | Some w \<Rightarrow> present W H x y d \<and> wall_x w = x \<and> wall_y w = y \<and> dr w = d"
    by (simp add: walls_wf_def)
  with i r have p: "present W H x y d" and c: "wall_x w = x" "wall_y w = y" "dr w = d" by simp_all
  have rem: "removed (deref ?ws' (wall_index W x y d))"
    using r i by (simp add: removed_def deref_def)
  have c1: "cell_of W (y * W + x) = (x, y)" by (rule cell_of_index[OF xy(1)])
  show ?thesis
  proof (cases d)
    case True
    with p have x1: "x + 1 < W" by (simp add: present_def)
    have "cell_of W (y * W + (x + 1)) = (x + 1, y)" by (rule cell_of_index[OF x1])
    then have c2: "cell_of W (y * W + x + 1) = (x + 1, y)" by (simp only: add.assoc)
    from rem True xy x1 have "linked W H ?ws' (x, y) (x + 1, y)" by (simp add: linked_def)
    with c True c1 c2 show ?thesis by simp
  next
    case False
    with p have y1: "y + 1 < H" by (simp add: present_def)
    have "cell_of W ((y + 1) * W + x) = (x, y + 1)" by (rule cell_of_index[OF xy(1)])
    moreover have "y * W + x + W = (y + 1) * W + x" by simp
    ultimately have c2: "cell_of W (y * W + x + W) = (x, y + 1)" by (simp only:)
    from rem False xy y1 have "linked W H ?ws' (x, y) (x, y + 1)" by (simp add: linked_def)
    with c False c1 c2 show ?thesis by simp
  qed
qed

lemma opened_removed:
  assumes "removed (deref ws i)"
  shows "removed (deref (ws[r := Some (w\<lparr>clr := True\<rparr>)]) i)"
  using assms by (cases "i = r") (auto simp add: removed_def deref_def split: if_splits)

lemma reach_inv_merge:
  assumes ri: "reach_inv W H s" and wf: "walls_wf W H (walls_by_index s)"
    and r: "r < length (walls_by_index s)" "walls_by_index s ! r = Some w"
    and wl: "{winner, loser} = {rep (union_find s) (wall_y w * W + wall_x w),
                                rep (union_find s) (wall_y w * W + wall_x w + (if dr w then 1 else W))}"
    and rep': "\<And>x. rep uf' x = (if rep (union_find s) x = loser then winner else rep (union_find s) x)"
  shows "reach_inv W H
           (s\<lparr>union_find := uf', walls_by_index := (walls_by_index s)[r := Some (w\<lparr>clr := True\<rparr>)]\<rparr>)"
proof (rule reach_invI)
  let ?ws = "walls_by_index s" and ?uf = "union_find s"
  let ?ws' = "?ws[r := Some (w\<lparr>clr := True\<rparr>)]"
  let ?s' = "s\<lparr>union_find := uf', walls_by_index := ?ws'\<rparr>"
  let ?c1 = "wall_y w * W + wall_x w"
  let ?c2 = "?c1 + (if dr w then 1 else W)"
  fix a b assume ab: "a < W * H" "b < W * H" "rep (union_find ?s') a = rep (union_find ?s') b"
  from wall_cells_in_range[OF wf r] have c: "?c1 < W * H" "?c2 < W * H" by simp_all
  have old: "\<exists>p. walk W H ?ws' (cell_of W u) (cell_of W v) p"
    if "u < W * H" "v < W * H" "rep ?uf u = rep ?uf v" for u v
  proof -
    from reach_invD[OF ri that] obtain p where "walk W H ?ws (cell_of W u) (cell_of W v) p" by blast
    from walk_mono[OF opened_removed this] show ?thesis by blast
  qed
  have l: "linked W H ?ws' (cell_of W ?c1) (cell_of W ?c2)" by (rule opened_wall_linked[OF wf r])
  have across: "\<exists>p. walk W H ?ws' (cell_of W u) (cell_of W v) p"
    if uv: "u < W * H" "v < W * H" "rep ?uf u = rep ?uf ?c1" "rep ?uf v = rep ?uf ?c2" for u v
  proof -
    from old[OF uv(1) c(1) uv(3)] obtain p where p: "walk W H ?ws' (cell_of W u) (cell_of W ?c1) p"
      by blast
    from old[OF c(2) uv(2) uv(4)[symmetric]] obtain p' where
      p': "walk W H ?ws' (cell_of W ?c2) (cell_of W v) p'" by blast
    from walk_append[OF walk_snoc[OF p l] p'] show ?thesis by blast
  qed
  show "\<exists>p. walk W H (walls_by_index ?s') (cell_of W a) (cell_of W b) p"
  proof (cases "rep ?uf a = rep ?uf b")
    case True
    from old[OF ab(1,2) True] show ?thesis by simp
  next
    case False
    from ab(3) have e: "(if rep ?uf a = loser then winner else rep ?uf a) =
        (if rep ?uf b = loser then winner else rep ?uf b)" by (simp add: rep')
    with False have "{rep ?uf a, rep ?uf b} = {winner, loser}"
      by (auto split: if_splits)
    with wl have "{rep ?uf a, rep ?uf b} = {rep ?uf ?c1, rep ?uf ?c2}" by simp
    then consider "rep ?uf a = rep ?uf ?c1" "rep ?uf b = rep ?uf ?c2"
      | "rep ?uf a = rep ?uf ?c2" "rep ?uf b = rep ?uf ?c1"
      by (auto simp add: doubleton_eq_iff)
    then show ?thesis
    proof cases
      case 1
      from across[OF ab(1,2) 1] show ?thesis by simp
    next
      case 2
      from across[OF ab(2,1) 2(2,1)] obtain p where
        "walk W H ?ws' (cell_of W b) (cell_of W a) p" by blast
      from walk_rev[OF this] show ?thesis by auto
    qed
  qed
qed

lemma try_wall_reach:
  assumes inv: "maze_inv W H s {r}" and w: "deref (walls_by_index s) r = Some w"
    and ri: "reach_inv W H s"
    and t: "try_wall W H r (s, g) = ret (res, s', g')"
  shows "reach_inv W H s' \<and> start_x s' = start_x s \<and> finish_x s' = finish_x s"
proof -
  let ?ws = "walls_by_index s" and ?uf = "union_find s"
  from inv have q9: "length (wall_queues s) = 9" and wf: "walls_wf W H ?ws"
    and ufi: "uf_inv ?uf" by (simp_all add: maze_inv_def)
  from w have r: "r < length ?ws" "?ws ! r = Some w"
    by (auto simp add: deref_def split: if_splits)
  show ?thesis
  proof (cases "clr w")
    case True
    then have "try_wall W H r (s, g) = ret (False, s, g)" by (simp add: try_wall_def w)
    with t ri show ?thesis by simp
  next
    case closed: False
    let ?c1 = "wall_y w * W + wall_x w"
    let ?c2 = "?c1 + (if dr w then 1 else W)"
    from union_uf_cases[OF ufi, of ?c1 ?c2] obtain res1 uf' winner loser where
      u: "union_uf ?uf ?c1 ?c2 = ret (res1, uf')" and ufi': "uf_inv uf'"
      and res: "res1 \<longleftrightarrow> rep ?uf ?c1 \<noteq> rep ?uf ?c2"
      and wl: "{winner, loser} = {rep ?uf ?c1, rep ?uf ?c2}"
      and rep': "\<And>x. rep uf' x = (if rep ?uf x = loser then winner else rep ?uf x)"
      by blast
    let ?s1 = "s\<lparr>union_find := uf'\<rparr>"
    show ?thesis
    proof (cases res1)
      case False
      then have t1: "try_wall W H r (s, g) = ret (False, ?s1, g)"
        using closed u by (simp add: try_wall_def w Let_def)
      from False res wl have "winner = loser" by (auto simp add: doubleton_eq_iff)
      then have same: "rep uf' x = rep ?uf x" for x by (simp add: rep')
      have "reach_inv W H ?s1"
        by (rule reach_inv_mono[OF ri]) (simp_all add: same)
      moreover from t t1 have "s' = ?s1" by simp
      ultimately show ?thesis by simp
    next
      case True
      let ?s2 = "s\<lparr>union_find := uf', walls_by_index := ?ws[r := Some (w\<lparr>clr := True\<rparr>)]\<rparr>"
      have ri2: "reach_inv W H ?s2" by (rule reach_inv_merge[OF ri wf r wl rep'])
      have len2: "length (walls_by_index ?s2) = 2 * W * H" using wf by (simp add: walls_wf_def)
      have q92: "9 \<le> length (wall_queues ?s2)" using q9 by simp
      from update_neighbours_grows[OF len2 q92, of w "[0..<6]" g] obtain s3 g3 where
        f: "for_each (update_neighbour W H w) [0..<6] (?s2, g) = ret (s3, g3)" and gr: "grows ?s2 s3"
        by blast
      have t1: "try_wall W H r (s, g) = ret (True, s3, g3)"
        using closed u True f by (simp add: try_wall_def w Let_def)
      with t have s': "s' = s3" by simp
      from grows_reach_inv[OF gr ri2] have "reach_inv W H s3" .
      moreover from gr have "start_x s3 = start_x s" "finish_x s3 = finish_x s"
        by (simp_all add: grows_def)
      ultimately show ?thesis using s' by simp
    qed
  qed
qed

lemma step_reach:
  assumes inv: "maze_inv W H s {}" and ri: "reach_inv W H s"
    and st: "step W H (s, g) = ret (res, s', g')"
  shows "reach_inv W H s' \<and> start_x s' = start_x s \<and> finish_x s' = finish_x s"
proof (cases "total_weight (wall_queues s) \<le> 0")
  case True
  from inv have q9: "length (wall_queues s) = 9" by (simp add: maze_inv_def)
  then have "step W H (s, g) = ret (False, s, g)" using True by (simp add: step_def)
  with st ri show ?thesis by simp
next
  case False
  let ?qs = "wall_queues s"
  let ?g1 = "snd (random_random g)"
  let ?qi = "select_queue ?qs [0..<9] (total_weight ?qs * fst (random_random g))"
  let ?q = "?qs ! ?qi"
  let ?wall = "last ?q"
  let ?s1 = "s\<lparr>wall_queues := ?qs[?qi := butlast ?q]\<rparr>"
  from inv have q9: "length ?qs = 9" by (simp add: maze_inv_def)
  from step_selects_nonempty[OF False, of g] have qi: "?qi < 9" and ne: "?q \<noteq> []" by simp_all
  from pop_correct[OF inv qi ne] have inv1: "maze_inv W H ?s1 {?wall}" by simp
  have ri1: "reach_inv W H ?s1" by (rule reach_inv_mono[OF ri]) simp_all
  have eq: "step W H (s, g) =
     (case deref (walls_by_index ?s1) ?wall of
        None \<Rightarrow> ret (True, ?s1, ?g1)
      | Some w \<Rightarrow>
          if wall_typ w = ?qi
          then and_then (try_wall W H ?wall (?s1, ?g1)) (\<lambda>(opened, s2, g2). ret (True, s2, g2))
          else ret (True, ?s1, ?g1))"
    using False q9 ne by (simp add: step_def Let_def case_prod_unfold)
  show ?thesis
  proof (cases "deref (walls_by_index ?s1) ?wall")
    case None
    with eq have "step W H (s, g) = ret (True, ?s1, ?g1)" by simp
    with st have "s' = ?s1" by simp
    with ri1 show ?thesis by simp
  next
    case (Some w)
    show ?thesis
    proof (cases "wall_typ w = ?qi")
      case stale: False
      with eq Some have "step W H (s, g) = ret (True, ?s1, ?g1)" by simp
      with st have "s' = ?s1" by simp
      with ri1 show ?thesis by simp
    next
      case True
      from try_wall_correct[OF inv1 Some, of ?g1] obtain res2 s2 g2 where
        t: "try_wall W H ?wall (?s1, ?g1) = ret (res2, s2, g2)" by blast
      from eq Some True t have "step W H (s, g) = ret (True, s2, g2)" by simp
      with st have s': "s' = s2" by simp
      from try_wall_reach[OF inv1 Some ri1 t] s' show ?thesis by simp
    qed
  qed
qed

lemma steps_reach:
  assumes inv: "maze_inv W H s {}" and ri: "reach_inv W H s"
  shows "steps W H n (s, g) = ret (res, s', g') \<Longrightarrow>
         reach_inv W H s' \<and> start_x s' = start_x s \<and> finish_x s' = finish_x s"
proof (induction n arbitrary: res s' g')
  case 0
  then have "s' = s" by simp
  with ri show ?case by simp
next
  case (Suc n)
  from steps_correct[OF inv, of n g] obtain res1 s1 g1 where
    1: "steps W H n (s, g) = ret (res1, s1, g1)" "maze_inv W H s1 {}" by blast
  from Suc.IH[OF 1(1)] have r1: "reach_inv W H s1" "start_x s1 = start_x s" "finish_x s1 = finish_x s"
    by simp_all
  from Suc.prems 1(1) have "step W H (s1, g1) = ret (res, s', g')" by simp
  from step_reach[OF 1(2) r1(1) this] r1(2,3) show ?case by simp
qed

lemma fresh_reach_inv:
  assumes "union_find s = []"
  shows "reach_inv W H s"
proof (rule reach_invI)
  fix a b assume "rep (union_find s) a = rep (union_find s) b"
  with assms have "a = b" by (simp add: rep_out_of_range)
  then show "\<exists>p. walk W H (walls_by_index s) (cell_of W a) (cell_of W b) p"
    using walk_single by blast
qed

lemma completed_maze:
  assumes W: "0 < W" and H: "0 < H"
    and i: "init W H (s, g) = ret (s0, g0)"
    and st: "steps W H n (s0, g0) = ret (False, s', g')"
  shows "start_x s' < W \<and> finish_x s' < W \<and>
         (\<exists>p. walk W H (walls_by_index s') (start_x s', 0) (finish_x s', H - 1) p)"
proof -
  from init_correct[OF W, of H s g] i have inv0: "maze_inv W H s0 {}" and f: "fresh_walls W H s0"
    and sf: "start_x s0 = g 0 mod W" "finish_x s0 = g 1 mod W" by auto
  from f have "union_find s0 = []" by (simp add: fresh_walls_def)
  then have ri0: "reach_inv W H s0" by (rule fresh_reach_inv)
  from steps_correct[OF inv0, of n g0] st
  have inv: "maze_inv W H s' {}" and empty: "\<forall>i<9. wall_queues s' ! i = []" by auto
  from steps_reach[OF inv0 ri0 st] have ri: "reach_inv W H s'"
    and sf': "start_x s' = start_x s0" "finish_x s' = finish_x s0" by simp_all
  from sf sf' W have sx: "start_x s' < W" and fx: "finish_x s' < W" by simp_all
  let ?a = "start_x s'" and ?b = "(H - 1) * W + finish_x s'"
  from sx H have a: "?a < W * H"
    by (metis One_nat_def Suc_leI less_le_trans mult.right_neutral mult_le_mono2)
  have "?b < (H - 1) * W + W" using fx by simp
  also have "\<dots> = W * H" using H by (cases H) simp_all
  finally have b: "?b < W * H" .
  from done_connected[OF inv empty a] done_connected[OF inv empty b]
  have "rep (union_find s') ?a = rep (union_find s') ?b" by simp
  from reach_invD[OF ri a b this] obtain p where
    p: "walk W H (walls_by_index s') (cell_of W ?a) (cell_of W ?b) p" by blast
  have "cell_of W ?a = (?a, 0)" using sx by (simp add: cell_of_def)
  moreover have "cell_of W ?b = (finish_x s', H - 1)" using fx by (simp add: cell_of_def)
  ultimately show ?thesis using p sx fx by auto
qed

subsection \<open>A run on the grid of two cells with the exit in the second column\<close>

lemma init_exit_2x1: "init 2 1 (blank_maze, exit_draws) = ret (fresh_exit_2x1, zero_draws)"
  by (simp add: init_def rand_int_def init_cell_def add_wall_def push_rand_def advance_def
      numeral_eq_Suc upt_rec Let_def)

lemma try_wall_exit_2x1:
  "try_wall 2 (Suc 0) 0 (fresh_exit_2x1\<lparr>wall_queues := [[], [], [], [], [], [], [], [], []]\<rparr>, zero_draws) =
   ret (True, done_exit_2x1, zero_draws)"
  by (simp add: try_wall_def deref_def union_uf_first update_neighbour_def get_neighbour_def
      HORIZONTAL_OFFSETS_def get_wall_def Let_def upt_conv_Cons)

lemma step_exit_2x1_first: "step 2 1 (fresh_exit_2x1, zero_draws) = ret (True, done_exit_2x1, zero_draws)"
proof -
  have tw: "\<not> total_weight [[0], [], [], [], [], [], [], [], []] \<le> 0"
    by (rule total_weight_first) simp
  have sel: "select_queue [[0], [], [], [], [], [], [], [], []] [0..<9] 0 = 0"
    by (rule select_queue_first) simp
  from try_wall_exit_2x1 show ?thesis
    by (simp add: step_def tw random_random_zero_draws sel deref_def Let_def)
qed

lemma step_exit_2x1_second: "step 2 1 (done_exit_2x1, zero_draws) = ret (False, done_exit_2x1, zero_draws)"
  by (rule step_done) (simp_all add: total_weight_le_0_iff all_queues_empty)

lemma steps_exit_2x1: "steps 2 1 2 (fresh_exit_2x1, zero_draws) = ret (False, done_exit_2x1, zero_draws)"
proof -
  have "steps 2 1 (Suc (Suc 0)) (fresh_exit_2x1, zero_draws) = ret (False, done_exit_2x1, zero_draws)"
    using step_exit_2x1_first step_exit_2x1_second by simp
  then show ?thesis by (simp add: numeral_2_eq_2)
qed

lemma solve_2x1: "solve 2 1 done_exit_2x1 = ret (solved_2x1, [(1, 0), (0, 0)])"
  by (simp add: solve_def init_solution_def solution_loop.simps solution_step_def expand_def
      visit_def target_def walldiff_def wall_open_def in_grid_def nth_checked_def backtrace.simps
      lower_def Let_def upt_conv_Cons ret_def and_then_def numeral_2_eq_2)

subsection \<open>The solver on a finished maze\<close>

text \<open>
  C3. On a maze that \<^verbatim>\<open>init\<close> and the calls of \<^verbatim>\<open>step\<close> up to the first that returns
  False have built, \<^verbatim>\<open>init_solution\<close> followed by the calls of \<^verbatim>\<open>solution_step\<close> up to
  the first that returns False returns, and then: every cell with a depth other than 0
  is the end of a walk of that many cells from the entrance through removed walls only,
  and of no shorter one (depth counts cells, the entrance has depth 1); the exit has
  been reached; and the cells painted by the backtrace, in order, start at the exit, end
  at the entrance, are consecutively joined by removed walls, are as many as the depth
  of the exit, and are distinct.
\<close>

theorem solver_shortest_path:
  assumes "0 < W" "0 < H"
    and "init W H (s, g) = ret (s0, g0)"
    and "steps W H n (s0, g0) = ret (False, m, g')"
  shows "\<exists>sv path. solve W H m = ret (sv, path) \<and>
     (\<forall>c. fst c < W \<and> snd c < H \<and> depth_at (solution_state sv) c \<noteq> 0 \<longrightarrow>
        (\<exists>p. walk W H (walls_by_index m) (start_x m, 0) c p \<and>
             length p = depth_at (solution_state sv) c) \<and>
        (\<forall>p. walk W H (walls_by_index m) (start_x m, 0) c p \<longrightarrow>
             depth_at (solution_state sv) c \<le> length p)) \<and>
     depth_at (solution_state sv) (start_x m, 0) = 1 \<and>
     depth_at (solution_state sv) (finish_x m, H - 1) \<noteq> 0 \<and>
     walk W H (walls_by_index m) (finish_x m, H - 1) (start_x m, 0) path \<and>
     length path = depth_at (solution_state sv) (finish_x m, H - 1) \<and>
     distinct path"
proof -
  let ?ws = "walls_by_index m" and ?e = "(start_x m, 0 :: nat)" and ?x = "(finish_x m, H - 1)"
  from completed_maze[OF assms] obtain q where sx: "start_x m < W" and fx: "finish_x m < W"
    and q: "walk W H ?ws ?e ?x q" by blast
  from solve_correct[OF assms(2) sx fx] obtain sv path where
    s: "solve W H m = ret (sv, path)" and inv: "bfs_inv W H ?ws ?e sv"
    and out: "outcome W H ?ws ?e ?x sv path" by blast
  let ?d = "depth_at (solution_state sv)"
  have exact: "(\<exists>p. walk W H ?ws ?e c p \<and> length p = ?d c) \<and>
        (\<forall>p. walk W H ?ws ?e c p \<longrightarrow> ?d c \<le> length p)"
    if c: "fst c < W \<and> snd c < H \<and> ?d c \<noteq> 0" for c
  proof
    from c have "fst c < W" "snd c < H" "?d c \<noteq> 0" by blast+
    from bfs_inv_reached[OF inv this] show "\<exists>p. walk W H ?ws ?e c p \<and> length p = ?d c" by blast
  next
    show "\<forall>p. walk W H ?ws ?e c p \<longrightarrow> ?d c \<le> length p"
    proof (intro allI impI)
      fix p assume w: "walk W H ?ws ?e c p"
      from c have "length p \<le> solution_depth sv \<or> ?d c \<noteq> 0" by blast
      from bfs_inv_least[OF inv w this] show "?d c \<le> length p" by blast
    qed
  qed
  have e1: "?d ?e = 1"
  proof -
    have w: "walk W H ?ws ?e ?e [?e]" by (rule walk_single)
    from bfs_inv_depth_pos[OF inv] have "length [?e] \<le> solution_depth sv \<or> ?d ?e \<noteq> 0" by simp
    from bfs_inv_least[OF inv w this] show ?thesis by simp
  qed
  have reached: "?d ?x \<noteq> 0"
  proof
    assume z: "?d ?x = 0"
    with out have "solution_level sv = []" by (simp add: outcome_def)
    from bfs_inv_exhausted[OF inv this q] z show False by simp
  qed
  with out have "walk W H ?ws ?x ?e path" "length path = ?d ?x" "distinct path"
    by (simp_all add: outcome_def)
  with s exact e1 reached show ?thesis by blast
qed

theorem solver_shortest_path_witness:
  "init 2 1 (blank_maze, exit_draws) = ret (fresh_exit_2x1, zero_draws) \<and>
   steps 2 1 2 (fresh_exit_2x1, zero_draws) = ret (False, done_exit_2x1, zero_draws) \<and>
   solve 2 1 done_exit_2x1 = ret (solved_2x1, [(1, 0), (0, 0)]) \<and>
   depth_at (solution_state solved_2x1) (0, 0) = 1 \<and>
   depth_at (solution_state solved_2x1) (1, 0) = 2 \<and>
   walk 2 1 (walls_by_index done_exit_2x1) (1, 0) (0, 0) [(1, 0), (0, 0)] \<and>
   length [(1 :: nat, 0 :: nat), (0, 0)] = depth_at (solution_state solved_2x1) (1, 0) \<and>
   distinct [(1 :: nat, 0 :: nat), (0, 0)]"
proof -
  have p: "(0::nat) < 2" "(0::nat) < 1" by simp_all
  from solver_shortest_path[OF p init_exit_2x1 steps_exit_2x1] obtain sv path where
    r: "solve 2 1 done_exit_2x1 = ret (sv, path)"
    "depth_at (solution_state sv) (start_x done_exit_2x1, 0) = 1"
    "depth_at (solution_state sv) (finish_x done_exit_2x1, 1 - 1) \<noteq> 0"
    "walk 2 1 (walls_by_index done_exit_2x1) (finish_x done_exit_2x1, 1 - 1) (start_x done_exit_2x1, 0) path"
    "length path = depth_at (solution_state sv) (finish_x done_exit_2x1, 1 - 1)"
    "distinct path" by blast
  from r(1) solve_2x1 have sv: "sv = solved_2x1" and path: "path = [(1, 0), (0, 0)]" by simp_all
  from r(2-6) have "depth_at (solution_state solved_2x1) (0, 0) = 1"
    "walk 2 1 (walls_by_index done_exit_2x1) (1, 0) (0, 0) [(1, 0), (0, 0)]"
    "length [(1 :: nat, 0 :: nat), (0, 0)] = depth_at (solution_state solved_2x1) (1, 0)"
    "distinct [(1 :: nat, 0 :: nat), (0, 0)]"
    unfolding sv path by simp_all
  moreover have "depth_at (solution_state solved_2x1) (1, 0) = 2" by (simp add: depth_at_def)
  ultimately show ?thesis using init_exit_2x1 steps_exit_2x1 solve_2x1 by simp
qed

end
